theory Spec2Isabelle
  imports Main
begin

section \<open>Checksum store: \<^verbatim>\<open>cli/src/utils/checksums.ts\<close>\<close>

text \<open>
  An \<^verbatim>\<open>IChecksums\<close> object maps a source path to its hash. A JavaScript object lists
  its own keys in insertion order, so the object is an association list; its keys are
  distinct (\<open>wf_object\<close>). A variable of that type may also hold \<^verbatim>\<open>null\<close>: \<open>None\<close>.
\<close>

type_synonym IChecksums = "(string \<times> string) list"

datatype js_error =
    ReadFileError
  | JsonSyntaxError
  | CalculateError
  | WriteFileError
  | TypeError_keys_of_null
  | TypeError_on_of_undefined

definition Object_keys :: "IChecksums \<Rightarrow> string list" where
  "Object_keys obj = map fst obj"

definition lookup :: "IChecksums \<Rightarrow> string \<Rightarrow> string option" where
  "lookup obj key = map_of obj key"

definition wf_object :: "IChecksums \<Rightarrow> bool" where
  "wf_object obj = distinct (Object_keys obj)"

text \<open>The \<^verbatim>\<open>for (const key of keys.current)\<close> loop of \<^verbatim>\<open>compare\<close>, with its early returns.\<close>

fun compare_loop :: "string list \<Rightarrow> IChecksums \<Rightarrow> IChecksums \<Rightarrow> bool" where
  "compare_loop [] old current = False"
| "compare_loop (key # rest) old current =
     (if key \<notin> set (Object_keys old) then True
      else if lookup old key \<noteq> lookup current key then True
      else compare_loop rest old current)"

text \<open>
  \<^verbatim>\<open>compare(old, current)\<close>; true means that the node needs a rebuild. \<^verbatim>\<open>!old\<close> is tested
  first; \<^verbatim>\<open>Object.keys(null)\<close> throws a TypeError. The debug lines it logs are left out.
\<close>

definition compare :: "IChecksums option \<Rightarrow> IChecksums option \<Rightarrow> js_error + bool" where
  "compare old current =
     (case old of
        None \<Rightarrow> Inr True
      | Some old' \<Rightarrow>
          (case current of
             None \<Rightarrow> Inl TypeError_keys_of_null
           | Some current' \<Rightarrow>
               if length (Object_keys old') \<noteq> length (Object_keys current') then Inr True
               else Inr (compare_loop (Object_keys current') old' current')))"

text \<open>
  The file at \<^verbatim>\<open>hashPath\<close>. Its bytes are kept up to what \<^verbatim>\<open>JSON.parse\<close> makes of them:
  \<open>Json v\<close> is a text that parses to \<open>v\<close> (\<^verbatim>\<open>null\<close> is \<open>Json None\<close>), \<open>Garbage\<close> a text
  that \<^verbatim>\<open>JSON.parse\<close> rejects. \<open>Unreadable\<close> is a file that exists and that
  \<^verbatim>\<open>readFile\<close> fails on.
\<close>

datatype json_text = Json "IChecksums option" | Garbage

datatype hash_file = NoFile | Unreadable | File json_text

fun JSON_parse :: "json_text \<Rightarrow> js_error + IChecksums option" where
  "JSON_parse (Json v) = Inr v"
| "JSON_parse Garbage = Inl JsonSyntaxError"

definition JSON_stringify :: "IChecksums option \<Rightarrow> json_text" where
  "JSON_stringify v = Json v"

definition existsSync :: "hash_file \<Rightarrow> bool" where
  "existsSync f = (f \<noteq> NoFile)"

text \<open>\<^verbatim>\<open>read()\<close>: \<open>Inl\<close> is a rejected promise, \<open>Inr None\<close> is \<^verbatim>\<open>null\<close>.\<close>

definition read :: "hash_file \<Rightarrow> js_error + IChecksums option" where
  "read f =
     (if \<not> existsSync f then Inr None
      else (case f of
              File data \<Rightarrow>
                (case JSON_parse data of
                   Inr hashes \<Rightarrow> Inr hashes
                 | Inl e \<Rightarrow> Inl e)
            | _ \<Rightarrow> Inl ReadFileError))"

text \<open>
  \<^verbatim>\<open>write(data)\<close> once \<^verbatim>\<open>writeFile\<close> has called back: \<open>ok\<close> says whether it did so
  without an error. A failed write is taken to leave the file as it was; the directory
  that \<^verbatim>\<open>ensureDestExists\<close> creates is not part of the state.
\<close>

definition write_hashes :: "IChecksums \<Rightarrow> bool \<Rightarrow> hash_file \<Rightarrow> hash_file" where
  "write_hashes data ok f = (if ok then File (JSON_stringify (Some data)) else f)"

text \<open>
  \<^verbatim>\<open>calculate()\<close> hashes the sources of the node and of its dependencies. The files are
  outside the model: the outcome of a call is given, \<open>None\<close> for a rejected promise.
\<close>

definition calculate :: "IChecksums option \<Rightarrow> js_error + IChecksums" where
  "calculate outcome = (case outcome of None \<Rightarrow> Inl CalculateError | Some hashes \<Rightarrow> Inr hashes)"

section \<open>Node construction: the constructor of \<^verbatim>\<open>core/src/graph/node.ts\<close>\<close>

text \<open>
  A yarn workspace as the constructor reads it: its name, its directory, the names its
  manifest lists as dependencies and as devDependencies, and whether the directory
  holds a \<^verbatim>\<open>serverless.yml\<close> (\<^verbatim>\<open>isService\<close>).
\<close>

record workspace =
  ws_name :: string
  ws_cwd :: string
  ws_dependencies :: "string list"
  ws_devDependencies :: "string list"
  ws_isService :: bool

datatype node_kind = Package | Service

datatype Node = Node (kind: node_kind) (node_name: string) (location: string) (dependencies: "Node list")

text \<open>
  The constructor calls itself for every dependency that is not built yet, and adds the
  new node to \<open>nodes\<close> only as its last statement. The first argument bounds the depth
  of the nested constructor calls: \<open>None\<close> says that the depth was not enough. \<open>nodes\<close>
  is the shared \<^verbatim>\<open>Set<Node>\<close>, in insertion order; it is returned updated.
\<close>

fun Node_constructor ::
    "nat \<Rightarrow> workspace list \<Rightarrow> Node list \<Rightarrow> node_kind \<Rightarrow> workspace \<Rightarrow> (Node \<times> Node list) option"
  and build_dependencies ::
    "nat \<Rightarrow> workspace list \<Rightarrow> Node list \<Rightarrow> string list \<Rightarrow> Node list \<Rightarrow> (Node list \<times> Node list) option"
where
  "Node_constructor 0 workspaces nodes k node = None"
| "Node_constructor (Suc depth) workspaces nodes k node =
     (case build_dependencies depth workspaces nodes
             (ws_dependencies node @ ws_devDependencies node) [] of
        None \<Rightarrow> None
      | Some (dependentWorkspaces, nodes') \<Rightarrow>
          (let this = Node k (ws_name node) (ws_cwd node) dependentWorkspaces
           in Some (this, nodes' @ [this])))"
| "build_dependencies depth workspaces nodes [] dependentWorkspaces =
     Some (dependentWorkspaces, nodes)"
| "build_dependencies depth workspaces nodes (name # descriptors) dependentWorkspaces =
     (case find (\<lambda>n. node_name n = name) nodes of
        Some alreadyBuilt \<Rightarrow>
          build_dependencies depth workspaces nodes descriptors (dependentWorkspaces @ [alreadyBuilt])
      | None \<Rightarrow>
          (case find (\<lambda>w. ws_name w = name) workspaces of
             None \<Rightarrow> build_dependencies depth workspaces nodes descriptors dependentWorkspaces
           | Some workspace \<Rightarrow>
               (case Node_constructor depth workspaces nodes
                       (if ws_isService workspace then Service else Package) workspace of
                  None \<Rightarrow> None
                | Some (child, nodes') \<Rightarrow>
                    build_dependencies depth workspaces nodes' descriptors
                      (dependentWorkspaces @ [child]))))"


section \<open>The compilation state of a node: \<^verbatim>\<open>core/src/graph/node.ts\<close>\<close>

datatype TranspilingStatus = NOT_TRANSPILED | TRANSPILING | TRANSPILED | ERROR_TRANSPILING

datatype TypeCheckStatus = NOT_CHECKED | CHECKING | SUCCESS | ERROR

text \<open>
  A line of \<^verbatim>\<open>_typeCheckLogs\<close>: a chunk the subprocess wrote, or one of the two lines of
  the skip notice, the second being \<^verbatim>\<open>JSON.stringify(this._checksums, null, 2)\<close>.
\<close>

datatype log_line =
    Chunk string
  | Skipped_notice
  | Checksums_json "IChecksums option"

text \<open>What an observer of \<^verbatim>\<open>performTypeChecking\<close> is sent.\<close>

datatype thrown = Undefined | Process_error string | Exception js_error

datatype notification = Next | Error_with thrown | Complete

datatype log_level = silly | debug | info | warn | error

datatype log_arg = Str string | Exn thrown

text \<open>
  Everything the node does to the outside, in the order it does it: calls of the IPC
  server, values pushed to the three subjects, subprocesses spawned, \<^verbatim>\<open>writeFile\<close>
  calls, what each subscriber is sent, and the lines given to the logger.
\<close>

datatype effect =
    Ipc_graphUpdated
  | Transpiled_next TranspilingStatus
  | TypeCheck_next TypeCheckStatus
  | TscLogs_next string
  | Spawn nat
  | WriteFile nat IChecksums
  | Notify nat notification
  | Logger string log_level "log_arg list"

text \<open>
  What the inner subscriber of \<^verbatim>\<open>_watchTypeChecking()\<close> does on completion: the branch
  that started the check writes \<^verbatim>\<open>action.checksums\<close> first (\<open>Persist\<close>), the branch that
  found the node \<^verbatim>\<open>CHECKING\<close> completes its observer (\<open>Forward\<close>).
\<close>

datatype on_complete = Persist "IChecksums option" | Forward

text \<open>
  The \<^verbatim>\<open>close\<close> and \<^verbatim>\<open>error\<close> listeners that one subscription to \<^verbatim>\<open>_watchTypeChecking()\<close>
  puts on a subprocess, for the subscriber \<open>requester\<close> of \<^verbatim>\<open>performTypeChecking\<close>. An
  rxjs subscriber passes nothing on once it was sent an error or a completion:
  \<open>stopped\<close>.
\<close>

datatype watcher =
  Watcher (proc: nat) (requester: nat) (completion: on_complete) (stopped: bool)

text \<open>
  What a call of \<^verbatim>\<open>_startTypeChecking(force)\<close> holds while it waits for the checksums:
  with \<open>force\<close> nothing; without \<open>force\<close> what \<^verbatim>\<open>read()\<close>, which is called when the type
  check is asked for, makes of the hash file as it is then (\<open>Inl\<close>: the promise is
  rejected).
\<close>

datatype awaiting = With_force | Without_force "js_error + IChecksums option"

text \<open>
  The fields of the node that the type check and the transpilation read and write
  (\<open>ipc\<close>: an IPC server is registered; \<open>typeCheckProcess\<close>: the handle of the last
  subprocess spawned, \<open>None\<close> for \<^verbatim>\<open>undefined\<close>), the file of its hashes, and what is
  pending on the event loop: the subprocesses' listeners, the calls of
  \<^verbatim>\<open>_startTypeChecking\<close> that wait for their checksums (by subscriber), and the
  \<^verbatim>\<open>writeFile\<close> calls that have not called back.
\<close>

record node =
  name :: string
  ipc :: bool
  transpilingStatus :: TranspilingStatus
  typeCheckStatus :: TypeCheckStatus
  typeCheckProcess :: "nat option"
  typeCheckLogs :: "log_line list"
  checksums :: "IChecksums option"
  lastTypeCheck :: "string option"
  hashFile :: hash_file
  spawned :: nat
  watchers :: "watcher list"
  starting :: "(nat \<times> awaiting) list"
  writing :: "(nat \<times> IChecksums) list"
  trace :: "effect list"

text \<open>The node as its constructor leaves it, beside the hash file \<open>f\<close> of an earlier run.\<close>

definition new_node :: "string \<Rightarrow> hash_file \<Rightarrow> node" where
  "new_node nm f =
     \<lparr>name = nm, ipc = False, transpilingStatus = NOT_TRANSPILED,
      typeCheckStatus = NOT_CHECKED, typeCheckProcess = None, typeCheckLogs = [],
      checksums = None, lastTypeCheck = None, hashFile = f, spawned = 0, watchers = [],
      starting = [], writing = [], trace = []\<rparr>"

definition registerIPCServer :: "node \<Rightarrow> node" where
  "registerIPCServer n = n\<lparr>ipc := True\<rparr>"

definition emit :: "effect \<Rightarrow> node \<Rightarrow> node" where
  "emit x n = n\<lparr>trace := trace n @ [x]\<rparr>"

definition setTranspilingStatus :: "TranspilingStatus \<Rightarrow> node \<Rightarrow> node" where
  "setTranspilingStatus status n =
     (let n1 = n\<lparr>transpilingStatus := status\<rparr>;
          n2 = (if ipc n1
                then emit Ipc_graphUpdated
                       (emit (Logger ''node'' debug [Str ''Notifying IPC server of graph update'']) n1)
                else n1)
      in emit (Transpiled_next (transpilingStatus n2)) n2)"

definition setTypeCheckingStatus :: "TypeCheckStatus \<Rightarrow> node \<Rightarrow> node" where
  "setTypeCheckingStatus status n =
     (let n1 = n\<lparr>typeCheckStatus := status\<rparr>
      in emit (TypeCheck_next (typeCheckStatus n1)) n1)"

definition handleTscLogs :: "string \<Rightarrow> node \<Rightarrow> node" where
  "handleTscLogs data n =
     emit (TscLogs_next data) (n\<lparr>typeCheckLogs := typeCheckLogs n @ [Chunk data]\<rparr>)"

text \<open>
  The \<^verbatim>\<open>try\<close> block of \<^verbatim>\<open>_startTypeChecking\<close>, from what \<^verbatim>\<open>read()\<close> made of the hash file
  (\<open>stored\<close>) and the outcome of \<^verbatim>\<open>calculate()\<close>. An exception leaves the block with the
  node as it is then: \<^verbatim>\<open>_checksums\<close> is assigned before \<^verbatim>\<open>compare\<close> is called.
\<close>

definition evaluate_checksums ::
    "js_error + IChecksums option \<Rightarrow> IChecksums option \<Rightarrow> node \<Rightarrow>
     (js_error \<times> node) + (bool \<times> IChecksums \<times> node)" where
  "evaluate_checksums stored outcome n =
     (case stored of
        Inl e \<Rightarrow> Inl (e, n)
      | Inr oldChecksums \<Rightarrow>
          (case calculate outcome of
             Inl e \<Rightarrow> Inl (e, n)
           | Inr currentChecksums \<Rightarrow>
               (let n1 = n\<lparr>checksums := Some currentChecksums\<rparr>
                in case compare oldChecksums (Some currentChecksums) of
                     Inl e \<Rightarrow> Inl (e, n1)
                   | Inr recompile \<Rightarrow> Inr (recompile, currentChecksums, n1))))"

text \<open>
  \<^verbatim>\<open>spawn(...)\<close> and the \<^verbatim>\<open>data\<close> listeners put on the new subprocess: subprocesses are
  numbered as they are spawned. A subprocess that cannot start says so by its
  \<^verbatim>\<open>error\<close> event.
\<close>

definition spawn_tsc :: "node \<Rightarrow> node" where
  "spawn_tsc n =
     emit (Spawn (spawned n))
       (n\<lparr>typeCheckProcess := Some (spawned n), spawned := Suc (spawned n)\<rparr>)"

text \<open>
  \<^verbatim>\<open>_startTypeChecking(force)\<close> runs up to its first \<^verbatim>\<open>await\<close> when it is called
  (\<open>startTypeChecking_begin\<close>): it sets the status and, without \<open>force\<close>, calls \<^verbatim>\<open>read()\<close>,
  which looks at the hash file then. The rest runs once the checksums are there
  (\<open>startTypeChecking_resume\<close>, which returns \<^verbatim>\<open>{ recompile, checksums }\<close>); the awaits
  that follow the call of \<^verbatim>\<open>read()\<close> are taken as one step. \<open>first\<close> is the outcome of the
  call of \<^verbatim>\<open>calculate()\<close> in the \<^verbatim>\<open>try\<close> block or in the \<^verbatim>\<open>else\<close> branch, \<open>again\<close> that of
  the call in the \<^verbatim>\<open>catch\<close> block.
\<close>

definition startTypeChecking_begin :: "bool \<Rightarrow> node \<Rightarrow> awaiting \<times> node" where
  "startTypeChecking_begin force n =
     (let n1 = setTypeCheckingStatus CHECKING n
      in (if \<not> force then Without_force (read (hashFile n1)) else With_force, n1))"

definition startTypeChecking_resume ::
    "awaiting \<Rightarrow> IChecksums option \<Rightarrow> IChecksums option \<Rightarrow> node \<Rightarrow> (bool \<times> IChecksums option) \<times> node" where
  "startTypeChecking_resume held first again n =
     (let (recompile, currentChecksums, n1) =
        (case held of
           Without_force stored \<Rightarrow>
           (let (recompile, currentChecksums, n1) =
              (case evaluate_checksums stored first n of
                 Inr (recompile, current, n1) \<Rightarrow> (recompile, Some current, n1)
               | Inl (e, n1) \<Rightarrow>
                   (True,
                    (case calculate again of Inl _ \<Rightarrow> None | Inr hashes \<Rightarrow> Some hashes),
                    emit (Logger ''node'' debug [Exn (Exception e)])
                      (emit (Logger ''node'' warn
                               [Str ''Error evaluating checksums for node'', Str (name n1)]) n1)))
            in (recompile, currentChecksums,
                emit (Logger ''node'' info
                        [Str ''Safe-compiling performing type-checks'', Str (name n1)]) n1))
         | With_force \<Rightarrow>
           (case calculate first of
              Inr hashes \<Rightarrow> (True, Some hashes, n)
            | Inl e \<Rightarrow>
                (True, None,
                 emit (Logger ''node'' warn
                         [Str ''Error evaluating checksums for node'', Str (name n)]) n)))
      in ((recompile, currentChecksums), (if recompile then spawn_tsc n1 else n1)))"

text \<open>
  Subscribing to \<^verbatim>\<open>_watchTypeChecking()\<close> puts the listeners on \<^verbatim>\<open>this.typeCheckProcess\<close>.
  When that is \<^verbatim>\<open>undefined\<close> the call of \<^verbatim>\<open>.on\<close> throws; rxjs hands what a subscribe
  function throws to the subscriber as an error.
\<close>

definition watchTypeChecking :: "nat \<Rightarrow> on_complete \<Rightarrow> node \<Rightarrow> node" where
  "watchTypeChecking rid c n =
     (case typeCheckProcess n of
        None \<Rightarrow> emit (Notify rid (Error_with (Exception TypeError_on_of_undefined))) n
      | Some pid \<Rightarrow> n\<lparr>watchers := watchers n @ [Watcher pid rid c False]\<rparr>)"

text \<open>Subscribing to \<^verbatim>\<open>performTypeChecking(force)\<close>, as subscriber \<open>rid\<close>.\<close>

definition performTypeChecking :: "nat \<Rightarrow> bool \<Rightarrow> node \<Rightarrow> node" where
  "performTypeChecking rid force n =
     (case typeCheckStatus n of
        CHECKING \<Rightarrow> watchTypeChecking rid Forward n
      | _ \<Rightarrow>
          (let (held, n1) = startTypeChecking_begin force n
           in n1\<lparr>starting := starting n1 @ [(rid, held)]\<rparr>))"

text \<open>The callback given to \<^verbatim>\<open>_startTypeChecking(force).then\<close>.\<close>

definition typeChecking_started :: "nat \<Rightarrow> bool \<times> IChecksums option \<Rightarrow> node \<Rightarrow> node" where
  "typeChecking_started rid action n =
     (if fst action then watchTypeChecking rid (Persist (snd action)) n
      else
        (let n1 = emit (Logger ''node'' info
                     [Str (''Skipped type-checking of '' @ name n @ '': sources did not change'')]) n;
             n2 = setTypeCheckingStatus SUCCESS n1;
             n3 = n2\<lparr>typeCheckLogs := [Skipped_notice, Checksums_json (checksums n2)]\<rparr>
         in emit (Notify rid Complete) (emit (Notify rid Next) n3)))"

text \<open>The inner subscriber of a watcher: \<^verbatim>\<open>next\<close>, \<^verbatim>\<open>error\<close> and \<^verbatim>\<open>complete\<close>.\<close>

definition observer_next :: "watcher \<Rightarrow> node \<Rightarrow> node" where
  "observer_next w n = (if stopped w then n else emit (Notify (requester w) Next) n)"

definition observer_error :: "thrown \<Rightarrow> watcher \<Rightarrow> node \<Rightarrow> watcher \<times> node" where
  "observer_error err w n =
     (if stopped w then (w, n)
      else (Watcher (proc w) (requester w) (completion w) True,
            emit (Notify (requester w) (Error_with err)) n))"

definition observer_complete :: "watcher \<Rightarrow> node \<Rightarrow> watcher \<times> node" where
  "observer_complete w n =
     (if stopped w then (w, n)
      else (Watcher (proc w) (requester w) (completion w) True,
            (case completion w of
               Persist (Some hashes) \<Rightarrow>
                 emit (WriteFile (requester w) hashes)
                   (n\<lparr>writing := writing n @ [(requester w, hashes)]\<rparr>)
             | _ \<Rightarrow> emit (Notify (requester w) Complete) n)))"

text \<open>The \<^verbatim>\<open>close\<close> listener and the \<^verbatim>\<open>error\<close> listener of a watcher.\<close>

definition on_close :: "int \<Rightarrow> string \<Rightarrow> watcher \<Rightarrow> node \<Rightarrow> watcher \<times> node" where
  "on_close code now w n =
     (let n1 = emit (Logger ''node'' silly [Str ''npx tsc process closed'']) n
      in if code = 0 then
           (let n2 = setTypeCheckingStatus SUCCESS n1;
                n3 = emit (Logger ''node'' info [Str (''Package safe-compiled '' @ name n2)]) n2;
                n4 = observer_next w n3;
                n5 = n4\<lparr>lastTypeCheck := Some now\<rparr>
            in observer_complete w n5)
         else
           (let n2 = setTypeCheckingStatus ERROR n1;
                n3 = emit (Logger ''node'' info [Str (''Error safe-compiling '' @ name n2)]) n2
            in observer_error Undefined w n3))"

definition on_error :: "string \<Rightarrow> watcher \<Rightarrow> node \<Rightarrow> watcher \<times> node" where
  "on_error err w n =
     (let n1 = emit (Logger ''node'' silly [Str ''npx tsc process error'']) n;
          n2 = emit (Logger ''node'' error [Exn (Process_error err)]) n1;
          n3 = setTypeCheckingStatus ERROR n2;
          n4 = emit (Logger ''node'' info
                  [Str (''Error safe-compiling '' @ name n3), Exn (Process_error err)]) n3
      in observer_error (Process_error err) w n4)"

text \<open>A subprocess event calls the listeners put on that subprocess, in the order they were added.\<close>

fun call_listeners ::
    "(watcher \<Rightarrow> node \<Rightarrow> watcher \<times> node) \<Rightarrow> nat \<Rightarrow> watcher list \<Rightarrow> node \<Rightarrow> watcher list \<times> node" where
  "call_listeners listener pid [] n = ([], n)"
| "call_listeners listener pid (w # ws) n =
     (if proc w = pid then
        (let (w', n1) = listener w n;
             (ws', n2) = call_listeners listener pid ws n1
         in (w' # ws', n2))
      else
        (let (ws', n2) = call_listeners listener pid ws n
         in (w # ws', n2)))"

definition process_event :: "(watcher \<Rightarrow> node \<Rightarrow> watcher \<times> node) \<Rightarrow> nat \<Rightarrow> node \<Rightarrow> node" where
  "process_event listener pid n =
     (let (ws', n1) = call_listeners listener pid (watchers n) n
      in n1\<lparr>watchers := ws'\<rparr>)"

text \<open>
  The \<^verbatim>\<open>data\<close> listeners of the subprocess's stderr (\<open>err\<close>) and stdout. The logger is
  given the one string \<^verbatim>\<open>`${chalk.bold(this.name)}: ${data}`\<close>, here without the escape
  codes that \<^verbatim>\<open>chalk\<close> may put around the name.
\<close>

definition on_data :: "nat \<Rightarrow> bool \<Rightarrow> string \<Rightarrow> node \<Rightarrow> node" where
  "on_data pid err data n =
     (if pid < spawned n then
        handleTscLogs data
          (emit (Logger ''tsc'' (if err then error else info) [Str (name n @ '': '' @ data)]) n)
      else n)"

text \<open>The \<^verbatim>\<open>then\<close> and \<^verbatim>\<open>catch\<close> callbacks of \<^verbatim>\<open>write(action.checksums)\<close>.\<close>

definition write_settled :: "nat \<Rightarrow> bool \<Rightarrow> node \<Rightarrow> node" where
  "write_settled rid ok n =
     (case map_of (writing n) rid of
        None \<Rightarrow> n
      | Some hashes \<Rightarrow>
          (let n1 = n\<lparr>writing := remove1 (rid, hashes) (writing n),
                       hashFile := write_hashes hashes ok (hashFile n)\<rparr>
           in if ok then
                (let n2 = emit (Logger ''node'' info [Str ''Checksum written'', Str (name n1)]) n1;
                     n3 = n2\<lparr>checksums := Some hashes\<rparr>
                 in emit (Notify rid Complete) n3)
              else
                (let n2 = emit (Logger ''node'' debug [Exn (Exception WriteFileError)]) n1;
                     n3 = emit (Logger ''node'' warn
                            [Str (''Error caching checksum for node '' @ name n2 @
                                  ''. Next time node will be recompiled event if source does not change'')]) n2
                 in emit (Notify rid Complete) n3)))"

text \<open>
  What the event loop runs next: a subscription, the checksums of a pending
  \<^verbatim>\<open>_startTypeChecking\<close>, a chunk of output, the end or the failure of a subprocess, the
  callback of a \<^verbatim>\<open>writeFile\<close>.
\<close>

datatype event =
    Subscribe nat bool
  | Checksums_ready nat "IChecksums option" "IChecksums option"
  | Proc_data nat bool string
  | Proc_close nat int string
  | Proc_error nat string
  | Write_done nat bool

fun step :: "event \<Rightarrow> node \<Rightarrow> node" where
  "step (Subscribe rid force) n = performTypeChecking rid force n"
| "step (Checksums_ready rid first again) n =
     (case map_of (starting n) rid of
        None \<Rightarrow> n
      | Some held \<Rightarrow>
          (let (action, n1) =
                 startTypeChecking_resume held first again
                   (n\<lparr>starting := remove1 (rid, held) (starting n)\<rparr>)
           in typeChecking_started rid action n1))"
| "step (Proc_data pid err data) n = on_data pid err data n"
| "step (Proc_close pid code now) n = process_event (on_close code now) pid n"
| "step (Proc_error pid err) n = process_event (on_error err) pid n"
| "step (Write_done rid ok) n = write_settled rid ok n"

definition run :: "event list \<Rightarrow> node \<Rightarrow> node" where
  "run events n = fold step events n"


section \<open>Observations on a run\<close>

text \<open>The logger was given the TypeError of \<^verbatim>\<open>Object.keys(null)\<close> by the \<^verbatim>\<open>catch\<close> block.\<close>

definition keys_of_null_logged :: "node \<Rightarrow> bool" where
  "keys_of_null_logged n =
     (Logger ''node'' debug [Exn (Exception TypeError_keys_of_null)] \<in> set (trace n))"

text \<open>
  Neither was the logger given that TypeError, nor does a pending call of
  \<^verbatim>\<open>_startTypeChecking\<close> hold it as what \<^verbatim>\<open>read()\<close> was rejected with.
\<close>

definition keys_of_null_unmet :: "node \<Rightarrow> bool" where
  "keys_of_null_unmet n =
     (\<not> keys_of_null_logged n
      \<and> Without_force (Inl TypeError_keys_of_null) \<notin> snd ` set (starting n))"

text \<open>What the subscribers were sent, in order.\<close>

definition notifications :: "node \<Rightarrow> (nat \<times> notification) list" where
  "notifications n = concat (map (\<lambda>x. case x of Notify rid m \<Rightarrow> [(rid, m)] | _ \<Rightarrow> []) (trace n))"

text \<open>
  Reading a trace from the type-check status \<open>s\<close> on: the status after it, and whether
  every \<^verbatim>\<open>writeFile\<close> call in it is made while the status is \<open>SUCCESS\<close>.
\<close>

fun status_after :: "TypeCheckStatus \<Rightarrow> effect list \<Rightarrow> TypeCheckStatus" where
  "status_after s [] = s"
| "status_after s (TypeCheck_next s' # t) = status_after s' t"
| "status_after s (x # t) = status_after s t"

fun writes_follow_success :: "TypeCheckStatus \<Rightarrow> effect list \<Rightarrow> bool" where
  "writes_follow_success s [] = True"
| "writes_follow_success s (TypeCheck_next s' # t) = writes_follow_success s' t"
| "writes_follow_success s (WriteFile rid hashes # t) = (s = SUCCESS \<and> writes_follow_success s t)"
| "writes_follow_success s (x # t) = writes_follow_success s t"

text \<open>The two invariants of a run that the persisted checksums rest on.\<close>

definition status_traced :: "node \<Rightarrow> bool" where
  "status_traced n =
     (writes_follow_success NOT_CHECKED (trace n)
      \<and> status_after NOT_CHECKED (trace n) = typeCheckStatus n)"

definition file_from_write :: "hash_file \<Rightarrow> node \<Rightarrow> bool" where
  "file_from_write f n =
     ((\<forall>rid hashes. (rid, hashes) \<in> set (writing n) \<longrightarrow> WriteFile rid hashes \<in> set (trace n))
      \<and> (hashFile n = f
         \<or> (\<exists>rid hashes. WriteFile rid hashes \<in> set (trace n)
               \<and> hashFile n = File (Json (Some hashes)))))"

text \<open>
  For the constructor: no node of \<open>nodes\<close> has its name in \<open>C\<close>; a workspace lists a name of
  \<open>C\<close> among its dependencies; every name of \<open>C\<close> is the name of a workspace that lists a
  name of \<open>C\<close> among its dependencies (so the names on a dependency cycle, and the names of
  the workspaces that lead to one).
\<close>

definition none_built :: "string set \<Rightarrow> Node list \<Rightarrow> bool" where
  "none_built C nodes = (node_name ` set nodes \<inter> C = {})"

definition depends_into :: "string set \<Rightarrow> workspace \<Rightarrow> bool" where
  "depends_into C w = (\<exists>d \<in> set (ws_dependencies w @ ws_devDependencies w). d \<in> C)"

definition self_dependent :: "workspace list \<Rightarrow> string set \<Rightarrow> bool" where
  "self_dependent workspaces C =
     (\<forall>c \<in> C. \<exists>w. find (\<lambda>w. ws_name w = c) workspaces = Some w \<and> depends_into C w)"

section \<open>Example inputs\<close>

definition hashes_v1 :: IChecksums where
  "hashes_v1 = [(''src/a.ts'', ''h1''), (''src/b.ts'', ''h2'')]"

definition hashes_v1_reordered :: IChecksums where
  "hashes_v1_reordered = [(''src/b.ts'', ''h2''), (''src/a.ts'', ''h1'')]"

definition hashes_v2 :: IChecksums where
  "hashes_v2 = [(''src/b.ts'', ''h2''), (''src/a.ts'', ''h3'')]"

definition workspace_A :: workspace where
  "workspace_A = \<lparr>ws_name = ''A'', ws_cwd = ''/repo/a'', ws_dependencies = [''B''],
                  ws_devDependencies = [], ws_isService = False\<rparr>"

definition workspace_B :: workspace where
  "workspace_B = \<lparr>ws_name = ''B'', ws_cwd = ''/repo/b'', ws_dependencies = [''A''],
                  ws_devDependencies = [], ws_isService = False\<rparr>"

definition workspace_lib :: workspace where
  "workspace_lib = \<lparr>ws_name = ''lib'', ws_cwd = ''/repo/lib'', ws_dependencies = [],
                    ws_devDependencies = [], ws_isService = False\<rparr>"

definition workspace_svc :: workspace where
  "workspace_svc = \<lparr>ws_name = ''svc'', ws_cwd = ''/repo/svc'', ws_dependencies = [''lib'', ''lodash''],
                    ws_devDependencies = [''lib''], ws_isService = True\<rparr>"

section \<open>Properties of the checksum store\<close>

subsection \<open>What \<open>compare\<close> decides\<close>

lemma compare_loop_iff:
  "compare_loop ks old current =
     (\<exists>k \<in> set ks. k \<notin> set (Object_keys old) \<or> lookup old k \<noteq> lookup current k)"
  by (induction ks) auto

lemma card_keys:
  assumes "wf_object obj"
  shows "card (set (Object_keys obj)) = length (Object_keys obj)"
  using assms by (simp add: wf_object_def distinct_card)

lemma same_keys_of_subset:
  assumes "wf_object old" and "wf_object current"
    and "length (Object_keys old) = length (Object_keys current)"
    and "set (Object_keys current) \<subseteq> set (Object_keys old)"
  shows "set (Object_keys current) = set (Object_keys old)"
proof -
  have "card (set (Object_keys current)) = card (set (Object_keys old))"
    using assms(1-3) by (simp add: card_keys)
  with assms(4) show ?thesis
    by (simp add: card_subset_eq)
qed

lemma compare_present:
  assumes wm: "wf_object m" and wc: "wf_object current"
  shows "compare (Some m) (Some current) =
     Inr (card (set (Object_keys m)) \<noteq> card (set (Object_keys current)) \<or>
          (\<exists>k. (k \<in> set (Object_keys m)) \<noteq> (k \<in> set (Object_keys current))) \<or>
          (\<exists>k. k \<in> set (Object_keys m) \<and> k \<in> set (Object_keys current) \<and>
               lookup m k \<noteq> lookup current k))"
proof (cases "length (Object_keys m) = length (Object_keys current)")
  case False
  then show ?thesis
    using wm wc by (simp add: compare_def card_keys)
next
  case len: True
  show ?thesis
  proof (cases "set (Object_keys current) \<subseteq> set (Object_keys m)")
    case False
    then obtain k where "k \<in> set (Object_keys current)" and "k \<notin> set (Object_keys m)"
      by blast
    then have "compare_loop (Object_keys current) m current"
      and "\<exists>k. (k \<in> set (Object_keys m)) \<noteq> (k \<in> set (Object_keys current))"
      by (auto simp: compare_loop_iff)
    then show ?thesis
      using len by (simp add: compare_def)
  next
    case True
    have eq: "set (Object_keys current) = set (Object_keys m)"
      using same_keys_of_subset [OF wm wc len True] .
    have "compare_loop (Object_keys current) m current =
          (\<exists>k. k \<in> set (Object_keys m) \<and> k \<in> set (Object_keys current) \<and>
               lookup m k \<noteq> lookup current k)"
      unfolding compare_loop_iff using eq by auto
    then show ?thesis
      using len eq wm wc by (simp add: compare_def card_keys)
  qed
qed

lemma lookup_eq_of_same_pairs:
  assumes "wf_object a" and "wf_object b" and "set a = set b"
  shows "lookup a k = lookup b k"
proof (cases "lookup a k")
  case None
  then have "k \<notin> fst ` set a"
    by (simp add: lookup_def map_of_eq_None_iff)
  then have "k \<notin> fst ` set b"
    using assms(3) by simp
  then have "lookup b k = None"
    by (simp add: lookup_def map_of_eq_None_iff)
  with None show ?thesis by simp
next
  case (Some v)
  then have "(k, v) \<in> set b"
    using assms(3) by (auto simp: lookup_def dest: map_of_SomeD)
  then have "lookup b k = Some v"
    using assms(2) by (simp add: lookup_def wf_object_def Object_keys_def)
  with Some show ?thesis by simp
qed

lemma compare_same_pairs:
  assumes wa: "wf_object a" and wb: "wf_object b" and eq: "set a = set b"
  shows "compare (Some a) (Some b) = Inr False"
proof -
  have keys: "set (Object_keys a) = set (Object_keys b)"
    using eq by (simp add: Object_keys_def)
  have "\<And>k. lookup a k = lookup b k"
    using lookup_eq_of_same_pairs [OF wa wb eq] .
  then show ?thesis
    using keys by (simp add: compare_present [OF wa wb])
qed

text \<open>
  C3. For an absent or present \<open>old\<close> and a present \<open>current\<close> (two objects, so with
  distinct keys), \<open>compare\<close> answers true exactly when \<open>old\<close> is absent, or the two key
  sets differ in size, or a key is in one object and not in the other, or a key of both
  has two different hashes. It does not look at the order of the keys: two objects with
  the same key/hash pairs, in whatever order, compare as unchanged.
\<close>

theorem compare_needs_rebuild_iff:
  assumes "wf_object current" and "\<forall>m. old = Some m \<longrightarrow> wf_object m"
  shows "compare old (Some current) =
     Inr (old = None \<or>
          (\<exists>m. old = Some m \<and>
             (card (set (Object_keys m)) \<noteq> card (set (Object_keys current)) \<or>
              (\<exists>k. (k \<in> set (Object_keys m)) \<noteq> (k \<in> set (Object_keys current))) \<or>
              (\<exists>k. k \<in> set (Object_keys m) \<and> k \<in> set (Object_keys current) \<and>
                   lookup m k \<noteq> lookup current k))))
     \<and> (\<forall>m. old = Some m \<and> set m = set current \<longrightarrow> compare old (Some current) = Inr False)"
proof
  show "compare old (Some current) =
     Inr (old = None \<or>
          (\<exists>m. old = Some m \<and>
             (card (set (Object_keys m)) \<noteq> card (set (Object_keys current)) \<or>
              (\<exists>k. (k \<in> set (Object_keys m)) \<noteq> (k \<in> set (Object_keys current))) \<or>
              (\<exists>k. k \<in> set (Object_keys m) \<and> k \<in> set (Object_keys current) \<and>
                   lookup m k \<noteq> lookup current k))))"
  proof (cases old)
    case None
    then show ?thesis by (simp add: compare_def)
  next
    case (Some m)
    with assms have "wf_object m" by simp
    from compare_present [OF this assms(1)] Some show ?thesis by simp
  qed
  show "\<forall>m. old = Some m \<and> set m = set current \<longrightarrow> compare old (Some current) = Inr False"
    using assms by (auto intro: compare_same_pairs)
qed

theorem compare_needs_rebuild_iff_witness:
  "compare (Some hashes_v1) (Some hashes_v1_reordered) = Inr False
   \<and> compare (Some hashes_v1) (Some hashes_v2) = Inr True"
proof -
  have w1: "wf_object hashes_v1_reordered"
    by (simp add: wf_object_def Object_keys_def hashes_v1_reordered_def)
  have w2: "\<forall>m. Some hashes_v1 = Some m \<longrightarrow> wf_object m"
    by (simp add: wf_object_def Object_keys_def hashes_v1_def)
  have w3: "wf_object hashes_v2"
    by (simp add: wf_object_def Object_keys_def hashes_v2_def)
  have "set hashes_v1 = set hashes_v1_reordered"
    by (auto simp: hashes_v1_def hashes_v1_reordered_def)
  then have "compare (Some hashes_v1) (Some hashes_v1_reordered) = Inr False"
    using compare_needs_rebuild_iff [OF w1 w2, THEN conjunct2] by blast
  moreover have "lookup hashes_v1 ''src/a.ts'' \<noteq> lookup hashes_v2 ''src/a.ts''"
    by (simp add: lookup_def hashes_v1_def hashes_v2_def)
  then have "compare (Some hashes_v1) (Some hashes_v2) = Inr True"
    using compare_needs_rebuild_iff [OF w3 w2, THEN conjunct1]
    by (auto simp: Object_keys_def hashes_v1_def hashes_v2_def)
  ultimately show ?thesis by simp
qed

subsection \<open>Where \<open>compare\<close> fails\<close>

lemma compare_present_current: "\<exists>verdict. compare old (Some current) = Inr verdict"
  by (cases old) (auto simp: compare_def)

lemma read_error:
  assumes "read g = Inl e"
  shows "e = ReadFileError \<or> e = JsonSyntaxError"
proof (cases g)
  case (File data)
  with assms show ?thesis
    by (cases data) (simp_all add: read_def existsSync_def)
qed (use assms in \<open>simp_all add: read_def existsSync_def\<close>)

lemma evaluate_checksums_error:
  assumes "evaluate_checksums stored outcome n = Inl (e, n')"
  shows "stored = Inl e \<or> e = CalculateError"
proof (cases stored)
  case (Inl a)
  with assms show ?thesis
    by (auto simp: evaluate_checksums_def)
next
  case (Inr oldChecksums)
  show ?thesis
  proof (cases outcome)
    case None
    with Inr assms show ?thesis
      by (simp add: evaluate_checksums_def calculate_def)
  next
    case (Some current)
    obtain verdict where "compare oldChecksums (Some current) = Inr verdict"
      using compare_present_current by blast
    with Inr Some assms show ?thesis
      by (simp add: evaluate_checksums_def calculate_def)
  qed
qed

lemma evaluate_checksums_trace:
  "evaluate_checksums stored outcome n = Inl (e, n1) \<Longrightarrow> trace n1 = trace n"
  "evaluate_checksums stored outcome n = Inr (recompile, current, n1) \<Longrightarrow> trace n1 = trace n"
  by (auto simp: evaluate_checksums_def Let_def split: sum.splits)

lemma call_listeners_preserves:
  assumes "\<And>w n. P n \<Longrightarrow> P (snd (listener w n))"
    and "P n"
  shows "P (snd (call_listeners listener pid ws n))"
  using assms(2)
proof (induction ws arbitrary: n)
  case Nil
  then show ?case by simp
next
  case (Cons w ws)
  show ?case
  proof (cases "proc w = pid")
    case True
    have "P (snd (listener w n))"
      using assms(1) Cons.prems by blast
    from Cons.IH [OF this] True show ?thesis
      by (simp add: split_def Let_def)
  next
    case False
    with Cons.IH [OF Cons.prems] show ?thesis
      by (simp add: split_def Let_def)
  qed
qed

lemma not_logged_on_close:
  "\<not> keys_of_null_logged n \<Longrightarrow> \<not> keys_of_null_logged (snd (on_close code now w n))"
  by (simp add: keys_of_null_logged_def on_close_def observer_next_def observer_complete_def
      observer_error_def setTypeCheckingStatus_def emit_def Let_def
      split: on_complete.splits option.splits)

lemma not_logged_on_error:
  "\<not> keys_of_null_logged n \<Longrightarrow> \<not> keys_of_null_logged (snd (on_error err w n))"
  by (simp add: keys_of_null_logged_def on_error_def observer_error_def
      setTypeCheckingStatus_def emit_def Let_def)

lemma not_logged_process_event:
  assumes "\<And>w n. \<not> keys_of_null_logged n \<Longrightarrow> \<not> keys_of_null_logged (snd (listener w n))"
    and "\<not> keys_of_null_logged n"
  shows "\<not> keys_of_null_logged (process_event listener pid n)"
proof -
  have "\<not> keys_of_null_logged (snd (call_listeners listener pid (watchers n) n))"
    using call_listeners_preserves [where P = "\<lambda>n. \<not> keys_of_null_logged n", OF assms] .
  then show ?thesis
    by (simp add: process_event_def split_def Let_def keys_of_null_logged_def)
qed

lemma not_logged_resume:
  assumes "\<not> keys_of_null_logged n" and "held \<noteq> Without_force (Inl TypeError_keys_of_null)"
  shows "\<not> keys_of_null_logged (snd (startTypeChecking_resume held first again n))"
proof (cases held)
  case With_force
  with assms(1) show ?thesis
    by (simp add: startTypeChecking_resume_def keys_of_null_logged_def spawn_tsc_def emit_def
        split: sum.splits)
next
  case (Without_force stored)
  show ?thesis
  proof (cases "evaluate_checksums stored first n")
    case (Inl a)
    obtain e n1 where a: "a = (e, n1)" by (cases a)
    have e: "e \<noteq> TypeError_keys_of_null"
      using evaluate_checksums_error [of stored first n e n1] Inl a assms(2) Without_force
      by auto
    have "trace n1 = trace n"
      using Inl a by (simp add: evaluate_checksums_trace)
    with assms(1) e Without_force Inl a show ?thesis
      by (simp add: startTypeChecking_resume_def keys_of_null_logged_def spawn_tsc_def emit_def)
  next
    case (Inr b)
    obtain recompile current n1 where b: "b = (recompile, current, n1)" by (cases b)
    have "trace n1 = trace n"
      using Inr b by (simp add: evaluate_checksums_trace)
    with assms(1) Without_force Inr b show ?thesis
      by (simp add: startTypeChecking_resume_def keys_of_null_logged_def spawn_tsc_def emit_def)
  qed
qed

lemma resume_starting:
  "starting (snd (startTypeChecking_resume held first again n)) = starting n"
proof (cases held)
  case With_force
  then show ?thesis
    by (simp add: startTypeChecking_resume_def spawn_tsc_def emit_def split: sum.splits)
next
  case (Without_force stored)
  show ?thesis
  proof (cases "evaluate_checksums stored first n")
    case (Inl a)
    obtain e n1 where a: "a = (e, n1)" by (cases a)
    have "starting n1 = starting n"
      using Inl a by (auto simp: evaluate_checksums_def Let_def split: sum.splits)
    with Without_force Inl a show ?thesis
      by (simp add: startTypeChecking_resume_def spawn_tsc_def emit_def)
  next
    case (Inr b)
    obtain recompile current n1 where b: "b = (recompile, current, n1)" by (cases b)
    have "starting n1 = starting n"
      using Inr b by (auto simp: evaluate_checksums_def Let_def split: sum.splits)
    with Without_force Inr b show ?thesis
      by (simp add: startTypeChecking_resume_def spawn_tsc_def emit_def)
  qed
qed

lemma started_starting:
  "starting (typeChecking_started rid action n) = starting n"
  by (simp add: typeChecking_started_def watchTypeChecking_def setTypeCheckingStatus_def
      emit_def Let_def split: option.splits)

lemma listeners_starting:
  "starting (snd (on_close code now w n)) = starting n"
  "starting (snd (on_error err w n)) = starting n"
  by (simp_all add: on_close_def on_error_def observer_next_def observer_complete_def
      observer_error_def setTypeCheckingStatus_def emit_def Let_def
      split: on_complete.splits option.splits)

lemma process_event_starting:
  assumes "\<And>w m. starting (snd (listener w m)) = starting m"
  shows "starting (process_event listener pid n) = starting n"
proof -
  have "starting (snd (call_listeners listener pid (watchers n) n)) = starting n"
    by (rule call_listeners_preserves [where P = "\<lambda>m. starting m = starting n"])
       (simp_all add: assms)
  then show ?thesis
    by (simp add: process_event_def split_def Let_def)
qed

lemma not_logged_started:
  "\<not> keys_of_null_logged n \<Longrightarrow> \<not> keys_of_null_logged (typeChecking_started rid action n)"
  by (simp add: typeChecking_started_def watchTypeChecking_def keys_of_null_logged_def
      setTypeCheckingStatus_def emit_def Let_def split: option.splits)

lemma unmet_step:
  assumes "keys_of_null_unmet n"
  shows "keys_of_null_unmet (step e n)"
proof (cases e)
  case (Subscribe rid force)
  have "read (hashFile n) \<noteq> Inl TypeError_keys_of_null"
    using read_error [of "hashFile n" TypeError_keys_of_null] by auto
  with assms Subscribe show ?thesis
    by (cases "typeCheckStatus n")
       (auto simp: keys_of_null_unmet_def keys_of_null_logged_def performTypeChecking_def
          watchTypeChecking_def startTypeChecking_begin_def setTypeCheckingStatus_def emit_def
          Let_def split: option.splits)
next
  case (Checksums_ready rid first again)
  show ?thesis
  proof (cases "map_of (starting n) rid")
    case None
    with assms Checksums_ready show ?thesis by simp
  next
    case (Some held)
    let ?m = "n\<lparr>starting := remove1 (rid, held) (starting n)\<rparr>"
    let ?r = "startTypeChecking_resume held first again ?m"
    have "(rid, held) \<in> set (starting n)"
      using Some by (rule map_of_SomeD)
    then have held: "held \<noteq> Without_force (Inl TypeError_keys_of_null)"
      using assms by (force simp: keys_of_null_unmet_def)
    have "\<not> keys_of_null_logged ?m"
      using assms by (simp add: keys_of_null_unmet_def keys_of_null_logged_def)
    then have logged: "\<not> keys_of_null_logged (typeChecking_started rid (fst ?r) (snd ?r))"
      by (intro not_logged_started not_logged_resume held)
    have "starting (typeChecking_started rid (fst ?r) (snd ?r)) = remove1 (rid, held) (starting n)"
      by (simp add: started_starting resume_starting)
    moreover have "set (remove1 (rid, held) (starting n)) \<subseteq> set (starting n)"
      by (rule set_remove1_subset)
    ultimately have "Without_force (Inl TypeError_keys_of_null)
        \<notin> snd ` set (starting (typeChecking_started rid (fst ?r) (snd ?r)))"
      using assms by (auto simp: keys_of_null_unmet_def)
    with logged Some Checksums_ready show ?thesis
      by (simp add: keys_of_null_unmet_def split_def Let_def)
  qed
next
  case (Proc_data pid err data)
  with assms show ?thesis
    by (simp add: keys_of_null_unmet_def on_data_def handleTscLogs_def keys_of_null_logged_def
        emit_def)
next
  case (Proc_close pid code now)
  with assms show ?thesis
    by (simp add: keys_of_null_unmet_def not_logged_process_event not_logged_on_close
        process_event_starting listeners_starting)
next
  case (Proc_error pid err)
  with assms show ?thesis
    by (simp add: keys_of_null_unmet_def not_logged_process_event not_logged_on_error
        process_event_starting listeners_starting)
next
  case (Write_done rid ok)
  with assms show ?thesis
    by (simp add: keys_of_null_unmet_def write_settled_def keys_of_null_logged_def emit_def
        Let_def split: option.splits)
qed

lemma unmet_run:
  "keys_of_null_unmet n \<Longrightarrow> keys_of_null_unmet (run events n)"
  unfolding run_def by (induction events arbitrary: n) (simp_all add: unmet_step)

text \<open>
  C10. \<open>compare\<close> fails when \<open>old\<close> is present and \<open>current\<close> is \<^verbatim>\<open>null\<close> (it asks for the
  keys of \<^verbatim>\<open>null\<close>), and answers with a boolean for every present \<open>current\<close>. The node
  never meets the failure: the only call of \<open>compare\<close>, in the \<^verbatim>\<open>try\<close> block of
  \<^verbatim>\<open>_startTypeChecking\<close>, is given the map that \<^verbatim>\<open>calculate()\<close> has just returned, so the
  block, whatever \<^verbatim>\<open>read()\<close> made of the hash file, never throws that error, and no run
  of a node hands it to the logger.
\<close>

theorem compare_fails_only_without_current:
  "compare (Some old) None = Inl TypeError_keys_of_null
   \<and> (\<exists>verdict. compare previous (Some current) = Inr verdict)
   \<and> evaluate_checksums (read g) outcome n \<noteq> Inl (TypeError_keys_of_null, n')
   \<and> \<not> keys_of_null_logged (run events (new_node nm f))"
proof -
  have "compare (Some old) None = Inl TypeError_keys_of_null"
    by (simp add: compare_def)
  moreover have "\<exists>verdict. compare previous (Some current) = Inr verdict"
    by (rule compare_present_current)
  moreover have "evaluate_checksums (read g) outcome n \<noteq> Inl (TypeError_keys_of_null, n')"
    using evaluate_checksums_error [of "read g" outcome n TypeError_keys_of_null n']
      read_error [of g TypeError_keys_of_null]
    by auto
  moreover have "keys_of_null_unmet (run events (new_node nm f))"
    by (rule unmet_run) (simp add: keys_of_null_unmet_def keys_of_null_logged_def new_node_def)
  then have "\<not> keys_of_null_logged (run events (new_node nm f))"
    by (simp add: keys_of_null_unmet_def)
  ultimately show ?thesis by blast
qed

subsection \<open>Reading the hash file\<close>

lemma resume_after_failed_read:
  "startTypeChecking_resume (Without_force (Inl e)) first again n =
     ((True, (case calculate again of Inl _ \<Rightarrow> None | Inr hashes \<Rightarrow> Some hashes)),
      spawn_tsc
        (emit (Logger ''node'' info [Str ''Safe-compiling performing type-checks'', Str (name n)])
           (emit (Logger ''node'' debug [Exn (Exception e)])
              (emit (Logger ''node'' warn [Str ''Error evaluating checksums for node'', Str (name n)])
                 n))))"
  by (simp add: startTypeChecking_resume_def evaluate_checksums_def emit_def)

lemma subscribe_idle:
  assumes "typeCheckStatus n \<noteq> CHECKING"
  shows "performTypeChecking rid force n =
     n\<lparr>typeCheckStatus := CHECKING, trace := trace n @ [TypeCheck_next CHECKING],
       starting := starting n @
         [(rid, if \<not> force then Without_force (read (hashFile n)) else With_force)]\<rparr>"
  using assms
  by (cases "typeCheckStatus n")
     (simp_all add: performTypeChecking_def startTypeChecking_begin_def
        setTypeCheckingStatus_def emit_def)

text \<open>
  C4, as the code has it. \<open>read\<close> answers \<^verbatim>\<open>null\<close> when there is no file at the hash path
  (and when the file holds the JSON text \<^verbatim>\<open>null\<close>). On a file that cannot be read and on
  a file that is not JSON it fails: the promise is rejected with the error. The caller,
  \<^verbatim>\<open>_startTypeChecking\<close> without \<open>force\<close>, which calls \<open>read\<close> on the hash file when the
  type check is asked for, catches the failure: it logs a warning and the error, keeps
  \<open>recompile\<close> true and spawns the type check.
\<close>

theorem read_outcomes_and_recovery:
  "read NoFile = Inr None
   \<and> read (File (Json v)) = Inr v
   \<and> read Unreadable = Inl ReadFileError
   \<and> read (File Garbage) = Inl JsonSyntaxError
   \<and> (typeCheckStatus n \<noteq> CHECKING \<longrightarrow>
        starting (step (Subscribe rid False) n) =
          starting n @ [(rid, Without_force (read (hashFile n)))])
   \<and> (read g = Inl e \<longrightarrow>
        startTypeChecking_resume (Without_force (read g)) first again n =
          ((True, (case calculate again of Inl _ \<Rightarrow> None | Inr hashes \<Rightarrow> Some hashes)),
           spawn_tsc
             (emit (Logger ''node'' info [Str ''Safe-compiling performing type-checks'', Str (name n)])
                (emit (Logger ''node'' debug [Exn (Exception e)])
                   (emit (Logger ''node'' warn
                            [Str ''Error evaluating checksums for node'', Str (name n)])
                      n)))))"
  by (simp add: read_def existsSync_def resume_after_failed_read subscribe_idle)

theorem read_outcomes_and_recovery_witness:
  "typeCheckStatus (new_node ''svc'' (File Garbage)) \<noteq> CHECKING
   \<and> starting (step (Subscribe 1 False) (new_node ''svc'' (File Garbage)))
       = [(1, Without_force (Inl JsonSyntaxError))]
   \<and> read (File Garbage) = Inl JsonSyntaxError
   \<and> fst (startTypeChecking_resume (Without_force (read (File Garbage))) (Some hashes_v1) None
             (step (Subscribe 1 False) (new_node ''svc'' (File Garbage))))
       = (True, None)
   \<and> spawned (snd (startTypeChecking_resume (Without_force (read (File Garbage)))
                      (Some hashes_v1) None
                      (step (Subscribe 1 False) (new_node ''svc'' (File Garbage))))) = 1
   \<and> spawned (run [Subscribe 1 False, Checksums_ready 1 (Some hashes_v1) None]
                (new_node ''svc'' (File Garbage))) = 1"
proof -
  let ?n = "new_node ''svc'' (File Garbage)"
  let ?m = "step (Subscribe 1 False) ?n"
  have a: "typeCheckStatus ?n \<noteq> CHECKING"
    by (simp add: new_node_def)
  have b: "read (File Garbage) = Inl JsonSyntaxError"
    by (simp add: read_def existsSync_def)
  from read_outcomes_and_recovery [where n = ?n and rid = 1] a b
  have c: "starting ?m = [(1, Without_force (Inl JsonSyntaxError))]"
    by (simp add: new_node_def)
  from read_outcomes_and_recovery
         [where n = ?m and g = "File Garbage" and e = JsonSyntaxError
            and first = "Some hashes_v1" and again = None] b
  have d: "startTypeChecking_resume (Without_force (read (File Garbage))) (Some hashes_v1) None ?m =
          ((True, None),
           spawn_tsc
             (emit (Logger ''node'' info
                      [Str ''Safe-compiling performing type-checks'', Str (name ?m)])
                (emit (Logger ''node'' debug [Exn (Exception JsonSyntaxError)])
                   (emit (Logger ''node'' warn
                            [Str ''Error evaluating checksums for node'', Str (name ?m)])
                      ?m))))"
    by (simp add: calculate_def)
  have e: "spawned ?m = 0"
    by code_simp
  have f: "spawned (run [Subscribe 1 False, Checksums_ready 1 (Some hashes_v1) None] ?n) = 1"
    by code_simp
  from a b c e f show ?thesis
    unfolding d by (simp add: spawn_tsc_def emit_def)
qed

theorem read_rejects_corrupt_file: "read (File Garbage) \<noteq> Inr None"
  by (simp add: read_def existsSync_def)

subsection \<open>The IPC server and the two status setters\<close>

lemma setTypeCheckingStatus_trace:
  "trace (setTypeCheckingStatus status n) = trace n @ [TypeCheck_next status]"
  by (simp add: setTypeCheckingStatus_def emit_def)

lemma setTranspilingStatus_trace:
  "trace (setTranspilingStatus status n) =
     trace n @
       (if ipc n
        then [Logger ''node'' debug [Str ''Notifying IPC server of graph update''], Ipc_graphUpdated]
        else []) @
       [Transpiled_next status]"
  by (simp add: setTranspilingStatus_def emit_def)

text \<open>
  C9, where the code leaves it: on a node with a registered IPC server,
  \<^verbatim>\<open>setTranspilingStatus\<close> calls \<^verbatim>\<open>graphUpdated()\<close> and \<^verbatim>\<open>setTypeCheckingStatus\<close> does not; a
  type-check transition only pushes the status to its subject.
\<close>

theorem typeCheck_transition_skips_ipc:
  "trace (setTypeCheckingStatus CHECKING (registerIPCServer (new_node ''svc'' NoFile)))
     = [TypeCheck_next CHECKING]
   \<and> trace (setTranspilingStatus TRANSPILING (registerIPCServer (new_node ''svc'' NoFile)))
     = [Logger ''node'' debug [Str ''Notifying IPC server of graph update''], Ipc_graphUpdated,
        Transpiled_next TRANSPILING]"
  by (simp add: setTypeCheckingStatus_trace setTranspilingStatus_trace registerIPCServer_def
      new_node_def)

subsection \<open>A request that finds the node checking\<close>

lemma request_while_checking:
  assumes "typeCheckStatus n = CHECKING"
  shows "spawned (step (Subscribe rid force) n) = spawned n"
    and "typeCheckProcess (step (Subscribe rid force) n) = typeCheckProcess n"
    and "starting (step (Subscribe rid force) n) = starting n"
    and "typeCheckProcess n = Some pid \<Longrightarrow>
         step (Subscribe rid force) n = n\<lparr>watchers := watchers n @ [Watcher pid rid Forward False]\<rparr>"
    and "typeCheckProcess n = None \<Longrightarrow>
         step (Subscribe rid force) n =
           emit (Notify rid (Error_with (Exception TypeError_on_of_undefined))) n"
  using assms
  by (simp_all add: performTypeChecking_def watchTypeChecking_def emit_def split: option.splits)

text \<open>
  C2, where the code leaves it. Two subscribers ask a new node for a forced type check,
  the second before the checksums of the first are there: the status is already
  \<open>CHECKING\<close> and no subprocess is spawned yet. One subprocess is spawned in all, and it
  ends with code 0; the first subscriber is sent the node and the completion, the
  second was sent a TypeError when it subscribed (\<^verbatim>\<open>typeCheckProcess\<close> was still undefined).
\<close>

theorem second_request_before_spawn:
  "notifications
     (run [Subscribe 1 True, Subscribe 2 True, Checksums_ready 1 (Some hashes_v1) None,
           Proc_close 0 0 ''2021-01-01T00:00:00.000Z'', Write_done 1 True]
        (new_node ''svc'' NoFile))
     = [(2, Error_with (Exception TypeError_on_of_undefined)), (1, Next), (1, Complete)]
   \<and> spawned
     (run [Subscribe 1 True, Subscribe 2 True, Checksums_ready 1 (Some hashes_v1) None,
           Proc_close 0 0 ''2021-01-01T00:00:00.000Z'', Write_done 1 True]
        (new_node ''svc'' NoFile)) = 1"
  by code_simp

text \<open>
  The same two requests on a node that was checked before: the second subscriber puts
  its listeners on the subprocess of the earlier check, which has ended, and is sent
  nothing at all.
\<close>

lemma second_request_on_ended_process:
  "notifications
     (run [Subscribe 1 True, Checksums_ready 1 (Some hashes_v1) None,
           Proc_close 0 0 ''2021-01-01T00:00:00.000Z'', Write_done 1 True,
           Subscribe 2 True, Subscribe 3 True, Checksums_ready 2 (Some hashes_v1) None,
           Proc_close 1 0 ''2021-01-01T00:00:09.000Z'', Write_done 2 True]
        (new_node ''svc'' NoFile))
     = [(1, Next), (1, Complete), (2, Next), (2, Complete)]"
  by code_simp

section \<open>Properties of the type check of a node\<close>

subsection \<open>What the listeners of a subprocess leave alone\<close>

lemma on_close_frame:
  "checksums (snd (on_close code now w n)) = checksums n"
  "typeCheckLogs (snd (on_close code now w n)) = typeCheckLogs n"
  "spawned (snd (on_close code now w n)) = spawned n"
  "hashFile (snd (on_close code now w n)) = hashFile n"
  by (simp_all add: on_close_def observer_next_def observer_complete_def observer_error_def
      setTypeCheckingStatus_def emit_def Let_def split: on_complete.splits option.splits)

lemma on_error_frame:
  "checksums (snd (on_error err w n)) = checksums n"
  "typeCheckLogs (snd (on_error err w n)) = typeCheckLogs n"
  "spawned (snd (on_error err w n)) = spawned n"
  "hashFile (snd (on_error err w n)) = hashFile n"
  by (simp_all add: on_error_def observer_error_def setTypeCheckingStatus_def emit_def Let_def)

lemma process_event_field:
  assumes "\<And>w m. field (snd (listener w m)) = field m"
    and "\<And>m ws. field (m\<lparr>watchers := ws\<rparr>) = field m"
  shows "field (process_event listener pid n) = field n"
proof -
  have "field (snd (call_listeners listener pid (watchers n) n)) = field n"
    by (rule call_listeners_preserves [where P = "\<lambda>m. field m = field n"])
       (simp_all add: assms(1))
  then show ?thesis
    by (simp add: process_event_def split_def Let_def assms(2))
qed

lemma process_event_close_frame:
  "checksums (process_event (on_close code now) pid n) = checksums n"
  "typeCheckLogs (process_event (on_close code now) pid n) = typeCheckLogs n"
  "spawned (process_event (on_close code now) pid n) = spawned n"
  "hashFile (process_event (on_close code now) pid n) = hashFile n"
  by (rule process_event_field; simp add: on_close_frame)+

lemma process_event_error_frame:
  "checksums (process_event (on_error err) pid n) = checksums n"
  "typeCheckLogs (process_event (on_error err) pid n) = typeCheckLogs n"
  "spawned (process_event (on_error err) pid n) = spawned n"
  "hashFile (process_event (on_error err) pid n) = hashFile n"
  by (rule process_event_field; simp add: on_error_frame)+

subsection \<open>The short cut for unchanged sources\<close>

lemma resume_unchanged:
  assumes "compare old (Some current) = Inr False"
  shows "startTypeChecking_resume (Without_force (Inr old)) (Some current) again n =
     ((False, Some current),
      emit (Logger ''node'' info [Str ''Safe-compiling performing type-checks'', Str (name n)])
        (n\<lparr>checksums := Some current\<rparr>))"
  using assms
  by (simp add: startTypeChecking_resume_def evaluate_checksums_def calculate_def emit_def)

lemma skip_step:
  assumes "map_of (starting n) rid = Some (Without_force (Inr old))"
    and "compare old (Some current) = Inr False"
  shows "step (Checksums_ready rid (Some current) again) n =
     n\<lparr>starting := remove1 (rid, Without_force (Inr old)) (starting n),
       checksums := Some current,
       typeCheckStatus := SUCCESS,
       typeCheckLogs := [Skipped_notice, Checksums_json (Some current)],
       trace := trace n @
         [Logger ''node'' info [Str ''Safe-compiling performing type-checks'', Str (name n)],
          Logger ''node'' info
            [Str (''Skipped type-checking of '' @ name n @ '': sources did not change'')],
          TypeCheck_next SUCCESS, Notify rid Next, Notify rid Complete]\<rparr>"
  using assms(1)
  by (simp add: resume_unchanged [OF assms(2)] typeChecking_started_def
      setTypeCheckingStatus_def emit_def)

text \<open>
  C1. A node that is not being checked is asked for a type check without \<open>force\<close>, by a
  new subscriber; the stored map is read and the map calculated compares to it as
  unchanged. Then no subprocess is spawned: the node goes from \<open>CHECKING\<close>, which the
  request sets at once, to \<open>SUCCESS\<close>; its logs are the skip notice and the checksums, the
  logger is told that the type check was skipped, and the subscriber is sent the node and
  the completion. Whatever else happened since the request, the step that finds the
  sources unchanged, against the map that was read at the request, does the same on the
  node \<open>m\<close> it finds.
\<close>

theorem unchanged_sources_skip_type_check:
  assumes "typeCheckStatus n \<noteq> CHECKING"
    and "map_of (starting n) rid = None"
    and "read (hashFile n) = Inr old"
    and "compare old (Some current) = Inr False"
  shows "(let n' = step (Checksums_ready rid (Some current) again) (step (Subscribe rid False) n)
          in spawned n' = spawned n
           \<and> typeCheckProcess n' = typeCheckProcess n
           \<and> typeCheckStatus n' = SUCCESS
           \<and> typeCheckLogs n' = [Skipped_notice, Checksums_json (Some current)]
           \<and> trace n' = trace n @
               [TypeCheck_next CHECKING,
                Logger ''node'' info [Str ''Safe-compiling performing type-checks'', Str (name n)],
                Logger ''node'' info
                  [Str (''Skipped type-checking of '' @ name n @ '': sources did not change'')],
                TypeCheck_next SUCCESS, Notify rid Next, Notify rid Complete])
         \<and> map_of (starting (step (Subscribe rid False) n)) rid = Some (Without_force (Inr old))
         \<and> (map_of (starting m) rid = Some (Without_force (Inr old)) \<longrightarrow>
              (let m' = step (Checksums_ready rid (Some current) again) m
               in spawned m' = spawned m
                \<and> typeCheckProcess m' = typeCheckProcess m
                \<and> typeCheckStatus m' = SUCCESS
                \<and> typeCheckLogs m' = [Skipped_notice, Checksums_json (Some current)]
                \<and> trace m' = trace m @
                    [Logger ''node'' info
                       [Str ''Safe-compiling performing type-checks'', Str (name m)],
                     Logger ''node'' info
                       [Str (''Skipped type-checking of '' @ name m @ '': sources did not change'')],
                     TypeCheck_next SUCCESS, Notify rid Next, Notify rid Complete]))"
proof (intro conjI)
  let ?m = "performTypeChecking rid False n"
  have m: "?m = n\<lparr>typeCheckStatus := CHECKING, trace := trace n @ [TypeCheck_next CHECKING],
                   starting := starting n @ [(rid, Without_force (Inr old))]\<rparr>"
    using subscribe_idle [OF assms(1), of rid False] assms(3) by simp
  have pending: "map_of (starting ?m) rid = Some (Without_force (Inr old))"
    using assms(2) by (simp add: m map_add_Some_iff)
  show "map_of (starting (step (Subscribe rid False) n)) rid = Some (Without_force (Inr old))"
    using pending by simp
  show "let n' = step (Checksums_ready rid (Some current) again) (step (Subscribe rid False) n)
        in spawned n' = spawned n
         \<and> typeCheckProcess n' = typeCheckProcess n
         \<and> typeCheckStatus n' = SUCCESS
         \<and> typeCheckLogs n' = [Skipped_notice, Checksums_json (Some current)]
         \<and> trace n' = trace n @
             [TypeCheck_next CHECKING,
              Logger ''node'' info [Str ''Safe-compiling performing type-checks'', Str (name n)],
              Logger ''node'' info
                [Str (''Skipped type-checking of '' @ name n @ '': sources did not change'')],
              TypeCheck_next SUCCESS, Notify rid Next, Notify rid Complete]"
    unfolding Let_def step.simps(1) skip_step [OF pending assms(4)]
    by (simp add: m)
  show "map_of (starting m) rid = Some (Without_force (Inr old)) \<longrightarrow>
              (let m' = step (Checksums_ready rid (Some current) again) m
               in spawned m' = spawned m
                \<and> typeCheckProcess m' = typeCheckProcess m
                \<and> typeCheckStatus m' = SUCCESS
                \<and> typeCheckLogs m' = [Skipped_notice, Checksums_json (Some current)]
                \<and> trace m' = trace m @
                    [Logger ''node'' info
                       [Str ''Safe-compiling performing type-checks'', Str (name m)],
                     Logger ''node'' info
                       [Str (''Skipped type-checking of '' @ name m @ '': sources did not change'')],
                     TypeCheck_next SUCCESS, Notify rid Next, Notify rid Complete])"
  proof
    assume p: "map_of (starting m) rid = Some (Without_force (Inr old))"
    show "let m' = step (Checksums_ready rid (Some current) again) m
          in spawned m' = spawned m
           \<and> typeCheckProcess m' = typeCheckProcess m
           \<and> typeCheckStatus m' = SUCCESS
           \<and> typeCheckLogs m' = [Skipped_notice, Checksums_json (Some current)]
           \<and> trace m' = trace m @
               [Logger ''node'' info
                  [Str ''Safe-compiling performing type-checks'', Str (name m)],
                Logger ''node'' info
                  [Str (''Skipped type-checking of '' @ name m @ '': sources did not change'')],
                TypeCheck_next SUCCESS, Notify rid Next, Notify rid Complete]"
      unfolding Let_def skip_step [OF p assms(4)] by simp
  qed
qed

text \<open>
  The witness: a stored map and the same pairs calculated in another order. In its second
  part a forced type check has succeeded and written its map; the next request, without
  \<open>force\<close>, reads that map, a late chunk of the first subprocess arrives while it waits,
  and the check is skipped all the same.
\<close>

theorem unchanged_sources_skip_type_check_witness:
  "typeCheckStatus (new_node ''svc'' (File (Json (Some hashes_v1)))) \<noteq> CHECKING
   \<and> read (hashFile (new_node ''svc'' (File (Json (Some hashes_v1))))) = Inr (Some hashes_v1)
   \<and> compare (Some hashes_v1) (Some hashes_v1_reordered) = Inr False
   \<and> spawned (run [Subscribe 1 False, Checksums_ready 1 (Some hashes_v1_reordered) None]
                (new_node ''svc'' (File (Json (Some hashes_v1))))) = 0
   \<and> typeCheckStatus (run [Subscribe 1 False, Checksums_ready 1 (Some hashes_v1_reordered) None]
                (new_node ''svc'' (File (Json (Some hashes_v1))))) = SUCCESS
   \<and> typeCheckLogs (run [Subscribe 1 False, Checksums_ready 1 (Some hashes_v1_reordered) None]
                (new_node ''svc'' (File (Json (Some hashes_v1)))))
       = [Skipped_notice, Checksums_json (Some hashes_v1_reordered)]
   \<and> map_of (starting
        (run [Subscribe 1 True, Checksums_ready 1 (Some hashes_v1) None,
              Proc_close 0 0 ''2021-01-01T00:00:00.000Z'', Write_done 1 True,
              Subscribe 2 False, Proc_data 0 False ''Done in 4.2s'']
           (new_node ''svc'' NoFile))) 2 = Some (Without_force (Inr (Some hashes_v1)))
   \<and> typeCheckStatus (step (Checksums_ready 2 (Some hashes_v1_reordered) None)
        (run [Subscribe 1 True, Checksums_ready 1 (Some hashes_v1) None,
              Proc_close 0 0 ''2021-01-01T00:00:00.000Z'', Write_done 1 True,
              Subscribe 2 False, Proc_data 0 False ''Done in 4.2s'']
           (new_node ''svc'' NoFile))) = SUCCESS
   \<and> spawned (step (Checksums_ready 2 (Some hashes_v1_reordered) None)
        (run [Subscribe 1 True, Checksums_ready 1 (Some hashes_v1) None,
              Proc_close 0 0 ''2021-01-01T00:00:00.000Z'', Write_done 1 True,
              Subscribe 2 False, Proc_data 0 False ''Done in 4.2s'']
           (new_node ''svc'' NoFile))) = 1"
proof -
  let ?n = "new_node ''svc'' (File (Json (Some hashes_v1)))"
  let ?m = "run [Subscribe 1 True, Checksums_ready 1 (Some hashes_v1) None,
              Proc_close 0 0 ''2021-01-01T00:00:00.000Z'', Write_done 1 True,
              Subscribe 2 False, Proc_data 0 False ''Done in 4.2s'']
           (new_node ''svc'' NoFile)"
  have a: "typeCheckStatus ?n \<noteq> CHECKING" by (simp add: new_node_def)
  have b: "map_of (starting ?n) 1 = None" by (simp add: new_node_def)
  have b2: "map_of (starting ?n) 2 = None" by (simp add: new_node_def)
  have c: "read (hashFile ?n) = Inr (Some hashes_v1)"
    by (simp add: new_node_def read_def existsSync_def)
  have d: "compare (Some hashes_v1) (Some hashes_v1_reordered) = Inr False"
    by (simp add: compare_def Object_keys_def lookup_def hashes_v1_def hashes_v1_reordered_def)
  have e: "map_of (starting ?m) 2 = Some (Without_force (Inr (Some hashes_v1)))"
    by code_simp
  have f: "spawned ?m = 1"
    by code_simp
  from unchanged_sources_skip_type_check [OF a b2 c d, THEN conjunct2, THEN conjunct2, of ?m None] e f
  have "typeCheckStatus (step (Checksums_ready 2 (Some hashes_v1_reordered) None) ?m) = SUCCESS"
    and "spawned (step (Checksums_ready 2 (Some hashes_v1_reordered) None) ?m) = 1"
    by (simp_all add: Let_def)
  moreover
  from unchanged_sources_skip_type_check [OF a b c d, THEN conjunct1, of None]
  have "spawned (run [Subscribe 1 False, Checksums_ready 1 (Some hashes_v1_reordered) None] ?n) = 0"
    and "typeCheckStatus (run [Subscribe 1 False, Checksums_ready 1 (Some hashes_v1_reordered) None] ?n)
           = SUCCESS"
    and "typeCheckLogs (run [Subscribe 1 False, Checksums_ready 1 (Some hashes_v1_reordered) None] ?n)
           = [Skipped_notice, Checksums_json (Some hashes_v1_reordered)]"
    by (simp_all add: run_def Let_def new_node_def)
  ultimately show ?thesis
    using a c d e by blast
qed

subsection \<open>What the rest of \<^verbatim>\<open>_startTypeChecking\<close> changes\<close>

lemmas resume_unfold =
  startTypeChecking_resume_def evaluate_checksums_def calculate_def spawn_tsc_def emit_def Let_def

lemma resume_logs:
  "typeCheckLogs (snd (startTypeChecking_resume held first again n)) = typeCheckLogs n"
  by (auto simp: resume_unfold split: awaiting.splits sum.splits option.splits)

lemma resume_writing:
  "writing (snd (startTypeChecking_resume held first again n)) = writing n"
  by (auto simp: resume_unfold split: awaiting.splits sum.splits option.splits)

lemma resume_hashFile:
  "hashFile (snd (startTypeChecking_resume held first again n)) = hashFile n"
  by (auto simp: resume_unfold split: awaiting.splits sum.splits option.splits)

lemma resume_recompile_spawns:
  "spawned (snd (startTypeChecking_resume held first again n)) =
     (if fst (fst (startTypeChecking_resume held first again n)) then Suc (spawned n)
      else spawned n)"
  by (auto simp: resume_unfold split: awaiting.splits sum.splits option.splits)

lemma resume_trace_status:
  "\<exists>u. trace (snd (startTypeChecking_resume held first again n)) = trace n @ u
       \<and> (\<forall>s. status_after s u = s) \<and> (\<forall>s. writes_follow_success s u)
       \<and> typeCheckStatus (snd (startTypeChecking_resume held first again n)) = typeCheckStatus n"
  by (auto simp: resume_unfold split: awaiting.splits sum.splits option.splits)

lemma resume_checksums:
  "checksums (snd (startTypeChecking_resume held first again n)) =
     (if (\<exists>old. held = Without_force (Inr old)) \<and> first \<noteq> None then first else checksums n)"
  by (auto simp: resume_unfold split: awaiting.splits sum.splits option.splits)

lemma resume_skips_only_unchanged:
  assumes "\<not> fst (fst (startTypeChecking_resume held first again n))"
  shows "\<exists>old current. held = Without_force (Inr old) \<and> first = Some current
           \<and> compare old (Some current) = Inr False"
  using assms by (auto simp: resume_unfold split: awaiting.splits sum.splits option.splits)

subsection \<open>When the snapshot of the checksums is assigned\<close>

lemma started_checksums:
  "checksums (typeChecking_started rid action n) = checksums n"
  by (simp add: typeChecking_started_def watchTypeChecking_def setTypeCheckingStatus_def
      emit_def Let_def split: option.splits)

lemma ready_checksums:
  assumes "map_of (starting n) rid = Some held"
  shows "checksums (step (Checksums_ready rid first again) n) =
     (if (\<exists>old. held = Without_force (Inr old)) \<and> first \<noteq> None then first else checksums n)"
proof -
  let ?m = "n\<lparr>starting := remove1 (rid, held) (starting n)\<rparr>"
  have "checksums (step (Checksums_ready rid first again) n) =
        checksums (snd (startTypeChecking_resume held first again ?m))"
    using assms by (simp add: split_def Let_def started_checksums)
  then show ?thesis
    by (simp add: resume_checksums)
qed

lemma write_done_checksums:
  "checksums (write_settled rid ok n) =
     (case map_of (writing n) rid of
        None \<Rightarrow> checksums n
      | Some hashes \<Rightarrow> if ok then Some hashes else checksums n)"
  by (simp add: write_settled_def emit_def Let_def split: option.splits)

lemma subscribe_checksums:
  "checksums (performTypeChecking rid force n) = checksums n"
  by (cases "typeCheckStatus n")
     (simp_all add: performTypeChecking_def startTypeChecking_begin_def watchTypeChecking_def
        setTypeCheckingStatus_def emit_def Let_def split: option.splits)

lemma data_checksums:
  "checksums (on_data pid err data n) = checksums n"
  by (simp add: on_data_def handleTscLogs_def emit_def)

lemma checksums_step_cases:
  "checksums (step e n) = checksums n
   \<or> (\<exists>rid current again old.
         e = Checksums_ready rid (Some current) again
         \<and> map_of (starting n) rid = Some (Without_force (Inr old))
         \<and> checksums (step e n) = Some current)
   \<or> (\<exists>rid hashes.
         e = Write_done rid True \<and> map_of (writing n) rid = Some hashes
         \<and> checksums (step e n) = Some hashes)"
proof (cases e)
  case (Subscribe rid force)
  then show ?thesis by (simp add: subscribe_checksums)
next
  case (Checksums_ready rid first again)
  show ?thesis
  proof (cases "map_of (starting n) rid")
    case None
    with Checksums_ready show ?thesis by simp
  next
    case (Some held)
    show ?thesis
    proof (cases "(\<exists>old. held = Without_force (Inr old)) \<and> first \<noteq> None")
      case True
      then obtain old current where "held = Without_force (Inr old)" and "first = Some current"
        by auto
      with Checksums_ready Some ready_checksums [OF Some, of first again] show ?thesis
        by auto
    next
      case False
      with ready_checksums [OF Some, of first again] Checksums_ready show ?thesis
        by auto
    qed
  qed
next
  case (Proc_data pid err data)
  then show ?thesis by (simp add: data_checksums)
next
  case (Proc_close pid code now)
  then show ?thesis by (simp add: process_event_close_frame)
next
  case (Proc_error pid err)
  then show ?thesis by (simp add: process_event_error_frame)
next
  case (Write_done rid ok)
  show ?thesis
  proof (cases "map_of (writing n) rid")
    case None
    with Write_done show ?thesis by (simp add: write_done_checksums)
  next
    case (Some hashes)
    with Write_done show ?thesis by (cases ok) (simp_all add: write_done_checksums)
  qed
qed

subsection \<open>What the logs of the type check hold\<close>

lemma started_logs:
  "typeCheckLogs (typeChecking_started rid action n) =
     (if fst action then typeCheckLogs n else [Skipped_notice, Checksums_json (checksums n)])"
  by (simp add: typeChecking_started_def watchTypeChecking_def setTypeCheckingStatus_def
      emit_def Let_def split: option.splits)

lemma started_spawned:
  "spawned (typeChecking_started rid action n) = spawned n"
  by (simp add: typeChecking_started_def watchTypeChecking_def setTypeCheckingStatus_def
      emit_def Let_def split: option.splits)

lemma ready_logs:
  "typeCheckLogs (step (Checksums_ready rid first again) n) = typeCheckLogs n
   \<or> (typeCheckLogs (step (Checksums_ready rid first again) n) =
         [Skipped_notice, Checksums_json (checksums (step (Checksums_ready rid first again) n))]
       \<and> spawned (step (Checksums_ready rid first again) n) = spawned n)"
proof (cases "map_of (starting n) rid")
  case None
  then show ?thesis by simp
next
  case (Some held)
  let ?m = "n\<lparr>starting := remove1 (rid, held) (starting n)\<rparr>"
  let ?r = "startTypeChecking_resume held first again ?m"
  have s: "step (Checksums_ready rid first again) n = typeChecking_started rid (fst ?r) (snd ?r)"
    using Some by (simp add: split_def Let_def)
  show ?thesis
  proof (cases "fst (fst ?r)")
    case True
    then show ?thesis
      unfolding s by (simp add: started_logs resume_logs)
  next
    case False
    then have "spawned (snd ?r) = spawned n"
      by (simp add: resume_recompile_spawns)
    with False show ?thesis
      unfolding s by (simp add: started_logs started_spawned started_checksums)
  qed
qed

lemma subscribe_logs:
  "typeCheckLogs (performTypeChecking rid force n) = typeCheckLogs n"
  by (cases "typeCheckStatus n")
     (simp_all add: performTypeChecking_def startTypeChecking_begin_def watchTypeChecking_def
        setTypeCheckingStatus_def emit_def Let_def split: option.splits)

text \<open>
  C8, as the code has it. Nothing clears \<^verbatim>\<open>_typeCheckLogs\<close> when a type check is asked for
  or started. Every chunk a subprocess writes is added at the end of the lines held, so
  a type check that runs a subprocess leaves the earlier lines followed by its own
  chunks. The lines are replaced in one place only: the type check that is skipped puts
  the two lines of the skip notice in their place, and spawns nothing.
\<close>

theorem logs_appended_or_replaced_by_skip:
  "typeCheckLogs (step (Subscribe rid force) n) = typeCheckLogs n
   \<and> typeCheckLogs (step (Proc_data pid err data) n) =
       (if pid < spawned n then typeCheckLogs n @ [Chunk data] else typeCheckLogs n)
   \<and> typeCheckLogs (step (Proc_close pid code now) n) = typeCheckLogs n
   \<and> typeCheckLogs (step (Proc_error pid msg) n) = typeCheckLogs n
   \<and> typeCheckLogs (step (Write_done rid ok) n) = typeCheckLogs n
   \<and> (typeCheckLogs (step (Checksums_ready rid first again) n) = typeCheckLogs n
      \<or> (typeCheckLogs (step (Checksums_ready rid first again) n) =
            [Skipped_notice, Checksums_json (checksums (step (Checksums_ready rid first again) n))]
          \<and> spawned (step (Checksums_ready rid first again) n) = spawned n))
   \<and> (map_of (starting n) rid = Some (Without_force (Inr old))
        \<and> compare old (Some current) = Inr False \<longrightarrow>
      typeCheckLogs (step (Checksums_ready rid (Some current) again) n) =
        [Skipped_notice, Checksums_json (Some current)])"
proof -
  have "map_of (starting n) rid = Some (Without_force (Inr old))
        \<and> compare old (Some current) = Inr False \<longrightarrow>
      typeCheckLogs (step (Checksums_ready rid (Some current) again) n) =
        [Skipped_notice, Checksums_json (Some current)]"
    using skip_step [of n rid old current again] by auto
  moreover have "typeCheckLogs (step (Subscribe rid force) n) = typeCheckLogs n"
    by (simp add: subscribe_logs)
  moreover have "typeCheckLogs (step (Proc_data pid err data) n) =
       (if pid < spawned n then typeCheckLogs n @ [Chunk data] else typeCheckLogs n)"
    by (simp add: on_data_def handleTscLogs_def emit_def)
  moreover have "typeCheckLogs (step (Proc_close pid code now) n) = typeCheckLogs n"
    by (simp add: process_event_close_frame)
  moreover have "typeCheckLogs (step (Proc_error pid msg) n) = typeCheckLogs n"
    by (simp add: process_event_error_frame)
  moreover have "typeCheckLogs (step (Write_done rid ok) n) = typeCheckLogs n"
    by (simp add: write_settled_def emit_def Let_def split: option.splits)
  ultimately show ?thesis
    using ready_logs [of rid first again n] by blast
qed

theorem logs_appended_or_replaced_by_skip_witness:
  "typeCheckLogs (step (Proc_data 0 True ''error TS2322 in a.ts'')
      (run [Subscribe 1 True, Checksums_ready 1 (Some hashes_v1) None,
            Proc_data 0 False ''Found 1 error.''] (new_node ''svc'' NoFile)))
     = [Chunk ''Found 1 error.'', Chunk ''error TS2322 in a.ts'']
   \<and> typeCheckLogs (step (Subscribe 2 False)
      (run [Subscribe 1 True, Checksums_ready 1 (Some hashes_v1) None,
            Proc_data 0 False ''Found 1 error.''] (new_node ''svc'' NoFile)))
     = [Chunk ''Found 1 error.'']
   \<and> typeCheckLogs (step (Checksums_ready 2 (Some hashes_v1_reordered) None)
      (run [Subscribe 1 True, Checksums_ready 1 (Some hashes_v1) None,
            Proc_data 0 False ''Found 1 error.'', Proc_close 0 0 ''2021-01-01T00:00:00.000Z'',
            Write_done 1 True, Subscribe 2 False] (new_node ''svc'' NoFile)))
     = [Skipped_notice, Checksums_json (Some hashes_v1_reordered)]"
proof -
  let ?m = "run [Subscribe 1 True, Checksums_ready 1 (Some hashes_v1) None,
            Proc_data 0 False ''Found 1 error.''] (new_node ''svc'' NoFile)"
  let ?n = "run [Subscribe 1 True, Checksums_ready 1 (Some hashes_v1) None,
            Proc_data 0 False ''Found 1 error.'', Proc_close 0 0 ''2021-01-01T00:00:00.000Z'',
            Write_done 1 True, Subscribe 2 False] (new_node ''svc'' NoFile)"
  have m: "typeCheckLogs ?m = [Chunk ''Found 1 error.'']" and sp: "spawned ?m = 1"
    by code_simp+
  have a: "map_of (starting ?n) 2 = Some (Without_force (Inr (Some hashes_v1)))"
    by code_simp
  have c: "compare (Some hashes_v1) (Some hashes_v1_reordered) = Inr False"
    by code_simp
  from logs_appended_or_replaced_by_skip
         [where n = ?m and rid = 2 and force = False and pid = 0 and err = True
            and data = "''error TS2322 in a.ts''"]
  have "typeCheckLogs (step (Proc_data 0 True ''error TS2322 in a.ts'') ?m)
          = [Chunk ''Found 1 error.'', Chunk ''error TS2322 in a.ts'']"
    and "typeCheckLogs (step (Subscribe 2 False) ?m) = [Chunk ''Found 1 error.'']"
    unfolding m sp by simp_all
  moreover from logs_appended_or_replaced_by_skip
         [where n = ?n and rid = 2 and old = "Some hashes_v1"
            and current = hashes_v1_reordered and again = None] a c
  have "typeCheckLogs (step (Checksums_ready 2 (Some hashes_v1_reordered) None) ?n)
          = [Skipped_notice, Checksums_json (Some hashes_v1_reordered)]"
    by blast
  ultimately show ?thesis by blast
qed

text \<open>
  Two forced type checks of a new node, one after the other, each with one chunk of
  output and each ending with code 1: after the second, the logs still begin with the
  chunk of the first.
\<close>

theorem logs_keep_earlier_output:
  "typeCheckLogs
     (run [Subscribe 1 True, Checksums_ready 1 (Some hashes_v1) None,
           Proc_data 0 True ''error TS2322 in a.ts'', Proc_close 0 1 ''2021-01-01T00:00:00.000Z'',
           Subscribe 2 True, Checksums_ready 2 (Some hashes_v2) None,
           Proc_data 1 True ''error TS2345 in b.ts'', Proc_close 1 1 ''2021-01-01T00:00:09.000Z'']
        (new_node ''svc'' NoFile))
     = [Chunk ''error TS2322 in a.ts'', Chunk ''error TS2345 in b.ts'']"
  by code_simp

subsection \<open>When the checksums are written to the hash file\<close>

lemma status_after_append:
  "status_after s (t @ u) = status_after (status_after s t) u"
  by (induction s t rule: status_after.induct) simp_all

lemma writes_follow_success_append:
  "writes_follow_success s (t @ u) =
     (writes_follow_success s t \<and> writes_follow_success (status_after s t) u)"
  by (induction s t rule: writes_follow_success.induct) auto

lemmas traced_simps =
  status_traced_def writes_follow_success_append status_after_append emit_def
  setTypeCheckingStatus_def Let_def

lemma traced_on_close:
  "status_traced n \<Longrightarrow> status_traced (snd (on_close code now w n))"
  by (simp add: traced_simps on_close_def observer_next_def observer_complete_def
      observer_error_def split: on_complete.splits option.splits)

lemma traced_on_error:
  "status_traced n \<Longrightarrow> status_traced (snd (on_error err w n))"
  by (simp add: traced_simps on_error_def observer_error_def)

lemma traced_process_event:
  assumes "\<And>w m. status_traced m \<Longrightarrow> status_traced (snd (listener w m))"
    and "status_traced n"
  shows "status_traced (process_event listener pid n)"
proof -
  have "status_traced (snd (call_listeners listener pid (watchers n) n))"
    using call_listeners_preserves [where P = status_traced, OF assms] .
  then show ?thesis
    by (simp add: process_event_def split_def Let_def status_traced_def)
qed

lemma traced_resume:
  assumes "status_traced n"
  shows "status_traced (snd (startTypeChecking_resume held first again n))"
proof -
  obtain u where "trace (snd (startTypeChecking_resume held first again n)) = trace n @ u"
    and "\<forall>s. status_after s u = s" and "\<forall>s. writes_follow_success s u"
    and "typeCheckStatus (snd (startTypeChecking_resume held first again n)) = typeCheckStatus n"
    using resume_trace_status by blast
  with assms show ?thesis
    by (simp add: status_traced_def writes_follow_success_append status_after_append)
qed

lemma traced_started:
  "status_traced n \<Longrightarrow> status_traced (typeChecking_started rid action n)"
  by (simp add: traced_simps typeChecking_started_def watchTypeChecking_def split: option.splits)

lemma traced_step:
  assumes "status_traced n"
  shows "status_traced (step e n)"
proof (cases e)
  case (Subscribe rid force)
  with assms show ?thesis
    by (cases "typeCheckStatus n")
       (simp_all add: traced_simps performTypeChecking_def startTypeChecking_begin_def
          watchTypeChecking_def split: option.splits)
next
  case (Checksums_ready rid first again)
  show ?thesis
  proof (cases "map_of (starting n) rid")
    case None
    with assms Checksums_ready show ?thesis by simp
  next
    case (Some held)
    have "status_traced (n\<lparr>starting := remove1 (rid, held) (starting n)\<rparr>)"
      using assms by (simp add: status_traced_def)
    then have "status_traced
        (typeChecking_started rid
           (fst (startTypeChecking_resume held first again
                   (n\<lparr>starting := remove1 (rid, held) (starting n)\<rparr>)))
           (snd (startTypeChecking_resume held first again
                   (n\<lparr>starting := remove1 (rid, held) (starting n)\<rparr>))))"
      by (intro traced_started traced_resume)
    with Some Checksums_ready show ?thesis
      by (simp add: split_def Let_def)
  qed
next
  case (Proc_data pid err data)
  with assms show ?thesis
    by (simp add: traced_simps on_data_def handleTscLogs_def)
next
  case (Proc_close pid code now)
  with assms show ?thesis
    by (simp add: traced_process_event traced_on_close)
next
  case (Proc_error pid err)
  with assms show ?thesis
    by (simp add: traced_process_event traced_on_error)
next
  case (Write_done rid ok)
  with assms show ?thesis
    by (simp add: traced_simps write_settled_def split: option.splits)
qed

lemma traced_run:
  "status_traced n \<Longrightarrow> status_traced (run events n)"
  unfolding run_def by (induction events arbitrary: n) (simp_all add: traced_step)


lemma from_write_on_close:
  "file_from_write f n \<Longrightarrow> file_from_write f (snd (on_close code now w n))"
  by (auto simp: file_from_write_def on_close_def observer_next_def observer_complete_def
      observer_error_def setTypeCheckingStatus_def emit_def Let_def
      split: on_complete.splits option.splits)

lemma from_write_on_error:
  "file_from_write f n \<Longrightarrow> file_from_write f (snd (on_error err w n))"
  by (auto simp: file_from_write_def on_error_def observer_error_def setTypeCheckingStatus_def
      emit_def Let_def)

lemma from_write_process_event:
  assumes "\<And>w m. file_from_write f m \<Longrightarrow> file_from_write f (snd (listener w m))"
    and "file_from_write f n"
  shows "file_from_write f (process_event listener pid n)"
proof -
  have "file_from_write f (snd (call_listeners listener pid (watchers n) n))"
    using call_listeners_preserves [where P = "file_from_write f", OF assms] .
  then show ?thesis
    by (simp add: process_event_def split_def Let_def file_from_write_def)
qed

lemma from_write_resume:
  assumes "file_from_write f n"
  shows "file_from_write f (snd (startTypeChecking_resume held first again n))"
proof -
  obtain u where "trace (snd (startTypeChecking_resume held first again n)) = trace n @ u"
    using resume_trace_status by blast
  with assms show ?thesis
    by (auto simp: file_from_write_def resume_writing resume_hashFile)
qed

lemma from_write_started:
  "file_from_write f n \<Longrightarrow> file_from_write f (typeChecking_started rid action n)"
  by (auto simp: file_from_write_def typeChecking_started_def watchTypeChecking_def
      setTypeCheckingStatus_def emit_def Let_def split: option.splits)

lemma from_write_settled:
  assumes "file_from_write f n"
  shows "file_from_write f (write_settled rid ok n)"
proof (cases "map_of (writing n) rid")
  case None
  with assms show ?thesis by (simp add: write_settled_def)
next
  case (Some hashes)
  then have "(rid, hashes) \<in> set (writing n)"
    by (rule map_of_SomeD)
  then have issued: "WriteFile rid hashes \<in> set (trace n)"
    using assms by (simp add: file_from_write_def)
  have kept: "\<And>r h. (r, h) \<in> set (remove1 (rid, hashes) (writing n)) \<Longrightarrow>
                WriteFile r h \<in> set (trace n)"
    using assms notin_set_remove1 by (fastforce simp: file_from_write_def)
  show ?thesis
  proof (cases ok)
    case True
    with Some issued kept show ?thesis
      by (auto simp: file_from_write_def write_settled_def write_hashes_def JSON_stringify_def
          emit_def Let_def)
  next
    case False
    with Some assms kept show ?thesis
      by (auto simp: file_from_write_def write_settled_def write_hashes_def emit_def Let_def)
  qed
qed

lemma from_write_step:
  assumes "file_from_write f n"
  shows "file_from_write f (step e n)"
proof (cases e)
  case (Subscribe rid force)
  with assms show ?thesis
    by (cases "typeCheckStatus n")
       (auto simp: file_from_write_def performTypeChecking_def startTypeChecking_begin_def
          watchTypeChecking_def setTypeCheckingStatus_def emit_def Let_def split: option.splits)
next
  case (Checksums_ready rid first again)
  show ?thesis
  proof (cases "map_of (starting n) rid")
    case None
    with assms Checksums_ready show ?thesis by simp
  next
    case (Some held)
    have "file_from_write f (n\<lparr>starting := remove1 (rid, held) (starting n)\<rparr>)"
      using assms by (simp add: file_from_write_def)
    then have "file_from_write f
        (typeChecking_started rid
           (fst (startTypeChecking_resume held first again
                   (n\<lparr>starting := remove1 (rid, held) (starting n)\<rparr>)))
           (snd (startTypeChecking_resume held first again
                   (n\<lparr>starting := remove1 (rid, held) (starting n)\<rparr>))))"
      by (intro from_write_started from_write_resume)
    with Some Checksums_ready show ?thesis
      by (simp add: split_def Let_def)
  qed
next
  case (Proc_data pid err data)
  with assms show ?thesis
    by (auto simp: file_from_write_def on_data_def handleTscLogs_def emit_def)
next
  case (Proc_close pid code now)
  with assms show ?thesis
    by (simp add: from_write_process_event from_write_on_close)
next
  case (Proc_error pid err)
  with assms show ?thesis
    by (simp add: from_write_process_event from_write_on_error)
next
  case (Write_done rid ok)
  with assms show ?thesis
    by (simp add: from_write_settled)
qed

lemma from_write_run:
  "file_from_write f n \<Longrightarrow> file_from_write f (run events n)"
  unfolding run_def by (induction events arbitrary: n) (simp_all add: from_write_step)

subsection \<open>Which steps issue a write, and which change the file\<close>

lemma on_close_failed_writing:
  "code \<noteq> 0 \<Longrightarrow> writing (snd (on_close code now w n)) = writing n"
  by (simp add: on_close_def observer_error_def setTypeCheckingStatus_def emit_def Let_def)

lemma on_close_zero_status:
  "typeCheckStatus (snd (on_close 0 now w n)) = SUCCESS"
  by (simp add: on_close_def observer_next_def observer_complete_def setTypeCheckingStatus_def
      emit_def Let_def split: on_complete.splits option.splits)

lemma on_error_writing:
  "writing (snd (on_error err w n)) = writing n"
  by (simp add: on_error_def observer_error_def setTypeCheckingStatus_def emit_def Let_def)

lemma close_writing:
  "writing (process_event (on_close code now) pid n) = writing n
   \<or> (code = 0 \<and> typeCheckStatus (process_event (on_close code now) pid n) = SUCCESS)"
proof (cases "code = 0")
  case False
  have "writing (process_event (on_close code now) pid n) = writing n"
    by (rule process_event_field) (simp_all add: on_close_failed_writing False)
  then show ?thesis by simp
next
  case True
  have "writing (snd (call_listeners (on_close 0 now) pid (watchers n) n)) = writing n
        \<or> typeCheckStatus (snd (call_listeners (on_close 0 now) pid (watchers n) n)) = SUCCESS"
    by (rule call_listeners_preserves
          [where P = "\<lambda>m. writing m = writing n \<or> typeCheckStatus m = SUCCESS"])
       (simp_all add: on_close_zero_status)
  with True show ?thesis
    by (simp add: process_event_def split_def Let_def)
qed

lemma writing_step_cases:
  "writing (step e n) = writing n
   \<or> (\<exists>pid now. e = Proc_close pid 0 now \<and> typeCheckStatus (step e n) = SUCCESS)
   \<or> (\<exists>rid ok. e = Write_done rid ok)"
proof (cases e)
  case (Subscribe rid force)
  then show ?thesis
    by (cases "typeCheckStatus n")
       (simp_all add: performTypeChecking_def startTypeChecking_begin_def watchTypeChecking_def
          setTypeCheckingStatus_def emit_def Let_def split: option.splits)
next
  case (Checksums_ready rid first again)
  show ?thesis
  proof (cases "map_of (starting n) rid")
    case None
    with Checksums_ready show ?thesis by simp
  next
    case (Some held)
    have "writing (typeChecking_started rid action m) = writing m" for action m
      by (simp add: typeChecking_started_def watchTypeChecking_def setTypeCheckingStatus_def
          emit_def Let_def split: option.splits)
    with Some Checksums_ready show ?thesis
      by (simp add: split_def Let_def resume_writing)
  qed
next
  case (Proc_data pid err data)
  then show ?thesis
    by (simp add: on_data_def handleTscLogs_def emit_def)
next
  case (Proc_close pid code now)
  with close_writing [of code now pid n] show ?thesis by auto
next
  case (Proc_error pid err)
  have "writing (process_event (on_error err) pid n) = writing n"
    by (rule process_event_field) (simp_all add: on_error_writing)
  with Proc_error show ?thesis by simp
next
  case (Write_done rid ok)
  then show ?thesis by simp
qed

lemma hashFile_step_cases:
  "hashFile (step e n) = hashFile n
   \<or> (\<exists>rid hashes. e = Write_done rid True \<and> map_of (writing n) rid = Some hashes
         \<and> hashFile (step e n) = File (Json (Some hashes)))"
proof (cases e)
  case (Subscribe rid force)
  then show ?thesis
    by (cases "typeCheckStatus n")
       (simp_all add: performTypeChecking_def startTypeChecking_begin_def watchTypeChecking_def
          setTypeCheckingStatus_def emit_def Let_def split: option.splits)
next
  case (Checksums_ready rid first again)
  show ?thesis
  proof (cases "map_of (starting n) rid")
    case None
    with Checksums_ready show ?thesis by simp
  next
    case (Some held)
    have "hashFile (typeChecking_started rid action m) = hashFile m" for action m
      by (simp add: typeChecking_started_def watchTypeChecking_def setTypeCheckingStatus_def
          emit_def Let_def split: option.splits)
    with Some Checksums_ready show ?thesis
      by (simp add: split_def Let_def resume_hashFile)
  qed
next
  case (Proc_data pid err data)
  then show ?thesis
    by (simp add: on_data_def handleTscLogs_def emit_def)
next
  case (Proc_close pid code now)
  then show ?thesis by (simp add: process_event_close_frame)
next
  case (Proc_error pid err)
  then show ?thesis by (simp add: process_event_error_frame)
next
  case (Write_done rid ok)
  then show ?thesis
    by (cases ok)
       (simp_all add: write_settled_def write_hashes_def JSON_stringify_def emit_def Let_def
          split: option.splits)
qed

text \<open>
  C6. In every run of a node from its construction, each call of \<^verbatim>\<open>writeFile\<close> is made
  while the last type-check status set is \<open>SUCCESS\<close>, so neither while the node is
  \<open>CHECKING\<close> nor after an \<open>ERROR\<close>; and the hash file is the one the run began with, or
  holds a map that such a call was given. Step by step: only the end of a subprocess with
  code 0 can issue a write, and it leaves the node in \<open>SUCCESS\<close>; only the callback of a
  successful write changes the file, to the map of that write.
\<close>

theorem checksums_written_only_after_success:
  "writes_follow_success NOT_CHECKED (trace (run events (new_node nm f)))
   \<and> (hashFile (run events (new_node nm f)) = f
      \<or> (\<exists>rid hashes. WriteFile rid hashes \<in> set (trace (run events (new_node nm f)))
            \<and> hashFile (run events (new_node nm f)) = File (Json (Some hashes))))
   \<and> (writing (step e n) = writing n
      \<or> (\<exists>pid now. e = Proc_close pid 0 now \<and> typeCheckStatus (step e n) = SUCCESS)
      \<or> (\<exists>rid ok. e = Write_done rid ok))
   \<and> (hashFile (step e n) = hashFile n
      \<or> (\<exists>rid hashes. e = Write_done rid True \<and> map_of (writing n) rid = Some hashes
            \<and> hashFile (step e n) = File (Json (Some hashes))))"
proof -
  have "status_traced (new_node nm f)"
    by (simp add: status_traced_def new_node_def)
  then have "status_traced (run events (new_node nm f))"
    by (rule traced_run)
  then have a: "writes_follow_success NOT_CHECKED (trace (run events (new_node nm f)))"
    by (simp add: status_traced_def)
  have "file_from_write f (new_node nm f)"
    by (simp add: file_from_write_def new_node_def)
  then have "file_from_write f (run events (new_node nm f))"
    by (rule from_write_run)
  then have b: "hashFile (run events (new_node nm f)) = f
      \<or> (\<exists>rid hashes. WriteFile rid hashes \<in> set (trace (run events (new_node nm f)))
            \<and> hashFile (run events (new_node nm f)) = File (Json (Some hashes)))"
    by (simp add: file_from_write_def)
  from a b writing_step_cases [of e n] hashFile_step_cases [of e n] show ?thesis
    by blast
qed

theorem checksums_written_only_after_success_witness:
  "writes_follow_success NOT_CHECKED
     (trace (run [Subscribe 1 False, Checksums_ready 1 (Some hashes_v2) None,
                  Proc_close 0 0 ''2021-01-01T00:00:00.000Z'', Write_done 1 True]
               (new_node ''svc'' (File (Json (Some hashes_v1))))))
   \<and> hashFile (run [Subscribe 1 False, Checksums_ready 1 (Some hashes_v2) None,
                  Proc_close 0 0 ''2021-01-01T00:00:00.000Z'', Write_done 1 True]
               (new_node ''svc'' (File (Json (Some hashes_v1))))) = File (Json (Some hashes_v2))
   \<and> hashFile (run [Subscribe 1 False, Checksums_ready 1 (Some hashes_v2) None,
                  Proc_close 0 0 ''2021-01-01T00:00:00.000Z'']
               (new_node ''svc'' (File (Json (Some hashes_v1))))) = File (Json (Some hashes_v1))
   \<and> hashFile (run [Subscribe 1 False, Checksums_ready 1 (Some hashes_v2) None,
                  Proc_close 0 1 ''2021-01-01T00:00:00.000Z'', Write_done 1 True]
               (new_node ''svc'' (File (Json (Some hashes_v1))))) = File (Json (Some hashes_v1))"
proof -
  have "writes_follow_success NOT_CHECKED
     (trace (run [Subscribe 1 False, Checksums_ready 1 (Some hashes_v2) None,
                  Proc_close 0 0 ''2021-01-01T00:00:00.000Z'', Write_done 1 True]
               (new_node ''svc'' (File (Json (Some hashes_v1))))))"
    using checksums_written_only_after_success by blast
  moreover have "hashFile (run [Subscribe 1 False, Checksums_ready 1 (Some hashes_v2) None,
                  Proc_close 0 0 ''2021-01-01T00:00:00.000Z'', Write_done 1 True]
               (new_node ''svc'' (File (Json (Some hashes_v1))))) = File (Json (Some hashes_v2))"
    by code_simp
  moreover have "hashFile (run [Subscribe 1 False, Checksums_ready 1 (Some hashes_v2) None,
                  Proc_close 0 0 ''2021-01-01T00:00:00.000Z'']
               (new_node ''svc'' (File (Json (Some hashes_v1))))) = File (Json (Some hashes_v1))"
    by code_simp
  moreover have "hashFile (run [Subscribe 1 False, Checksums_ready 1 (Some hashes_v2) None,
                  Proc_close 0 1 ''2021-01-01T00:00:00.000Z'', Write_done 1 True]
               (new_node ''svc'' (File (Json (Some hashes_v1))))) = File (Json (Some hashes_v1))"
    by code_simp
  ultimately show ?thesis by blast
qed

subsection \<open>Where the snapshot of the checksums comes from\<close>

lemma trace_grows_listener:
  "\<exists>u. trace (snd (on_close code now w n)) = trace n @ u"
  "\<exists>u. trace (snd (on_error err w n)) = trace n @ u"
  by (simp_all add: on_close_def on_error_def observer_next_def observer_complete_def
      observer_error_def setTypeCheckingStatus_def emit_def Let_def
      split: on_complete.splits option.splits)

lemma trace_grows_process_event:
  assumes "\<And>w m. \<exists>u. trace (snd (listener w m)) = trace m @ u"
  shows "\<exists>u. trace (process_event listener pid n) = trace n @ u"
proof -
  have "\<exists>u. trace (snd (call_listeners listener pid (watchers n) n)) = trace n @ u"
  proof (rule call_listeners_preserves [where P = "\<lambda>m. \<exists>u. trace m = trace n @ u"])
    fix w and m :: node
    assume "\<exists>u. trace m = trace n @ u"
    then obtain u where u: "trace m = trace n @ u" by blast
    obtain v where "trace (snd (listener w m)) = trace m @ v"
      using assms by blast
    with u have "trace (snd (listener w m)) = trace n @ (u @ v)" by simp
    then show "\<exists>u. trace (snd (listener w m)) = trace n @ u" by blast
  qed simp
  then show ?thesis
    by (simp add: process_event_def split_def Let_def)
qed

lemma trace_grows_step:
  "\<exists>u. trace (step e n) = trace n @ u"
proof (cases e)
  case (Subscribe rid force)
  then show ?thesis
    by (cases "typeCheckStatus n")
       (simp_all add: performTypeChecking_def startTypeChecking_begin_def watchTypeChecking_def
          setTypeCheckingStatus_def emit_def Let_def split: option.splits)
next
  case (Checksums_ready rid first again)
  show ?thesis
  proof (cases "map_of (starting n) rid")
    case None
    with Checksums_ready show ?thesis by simp
  next
    case (Some held)
    let ?m = "n\<lparr>starting := remove1 (rid, held) (starting n)\<rparr>"
    let ?r = "startTypeChecking_resume held first again ?m"
    obtain u where u: "trace (snd ?r) = trace n @ u"
      using resume_trace_status [of held first again ?m] by auto
    have "\<exists>v. trace (typeChecking_started rid action m) = trace m @ v" for action m
      by (simp add: typeChecking_started_def watchTypeChecking_def setTypeCheckingStatus_def
          emit_def Let_def split: option.splits)
    then obtain v where "trace (typeChecking_started rid (fst ?r) (snd ?r)) = trace (snd ?r) @ v"
      by blast
    with u have "trace (typeChecking_started rid (fst ?r) (snd ?r)) = trace n @ (u @ v)"
      by simp
    with Some Checksums_ready show ?thesis
      by (simp add: split_def Let_def)
  qed
next
  case (Proc_data pid err data)
  then show ?thesis
    by (simp add: on_data_def handleTscLogs_def emit_def)
next
  case (Proc_close pid code now)
  then show ?thesis
    by (simp add: trace_grows_process_event trace_grows_listener)
next
  case (Proc_error pid err)
  then show ?thesis
    by (simp add: trace_grows_process_event trace_grows_listener)
next
  case (Write_done rid ok)
  then show ?thesis
    by (simp add: write_settled_def emit_def Let_def split: option.splits)
qed

lemma run_snoc: "run (events @ [e]) n = step e (run events n)"
  by (simp add: run_def)

lemma snapshot_origin:
  "checksums (run events (new_node nm f)) = None
   \<or> (\<exists>rid current again.
         Checksums_ready rid (Some current) again \<in> set events
         \<and> checksums (run events (new_node nm f)) = Some current)
   \<or> (\<exists>rid hashes.
         WriteFile rid hashes \<in> set (trace (run events (new_node nm f)))
         \<and> checksums (run events (new_node nm f)) = Some hashes)"
proof (induction events rule: rev_induct)
  case Nil
  then show ?case by (simp add: run_def new_node_def)
next
  case (snoc e events)
  let ?m = "run events (new_node nm f)"
  have step: "run (events @ [e]) (new_node nm f) = step e ?m"
    by (rule run_snoc)
  obtain u where u: "trace (step e ?m) = trace ?m @ u"
    using trace_grows_step by blast
  have "file_from_write f (new_node nm f)"
    by (simp add: file_from_write_def new_node_def)
  then have issued: "file_from_write f ?m"
    by (rule from_write_run)
  consider
      (same) "checksums (step e ?m) = checksums ?m"
    | (start) rid current again where "e = Checksums_ready rid (Some current) again"
        "checksums (step e ?m) = Some current"
    | (written) rid hashes where "e = Write_done rid True"
        "map_of (writing ?m) rid = Some hashes" "checksums (step e ?m) = Some hashes"
    using checksums_step_cases [of e ?m] by blast
  then show ?case
  proof cases
    case same
    with snoc.IH u show ?thesis
      unfolding step by auto
  next
    case start
    then show ?thesis
      unfolding step by auto
  next
    case written
    have "(rid, hashes) \<in> set (writing ?m)"
      using written(2) by (rule map_of_SomeD)
    then have "WriteFile rid hashes \<in> set (trace ?m)"
      using issued by (simp add: file_from_write_def)
    with written(3) u show ?thesis
      unfolding step by auto
  qed
qed

text \<open>
  C7, as the code has it. \<^verbatim>\<open>_checksums\<close> is assigned in two places. (a) A type check
  without \<open>force\<close> assigns the map just calculated as soon as the calculation has
  succeeded, if \<^verbatim>\<open>read()\<close>, called on the hash file when the type check was asked for, has
  succeeded: before the two maps are compared and before any subprocess runs. (b) The
  callback of a successful \<^verbatim>\<open>writeFile\<close> assigns the map written, whenever it arrives.
  No other step assigns it: not a request, not the start of a forced type check, not a
  start whose \<^verbatim>\<open>read()\<close> or whose calculation failed, not the output, the end or the
  failure of a subprocess, not a failed write. So in every run of a node from its
  construction the snapshot is undefined, or a map that \<^verbatim>\<open>calculate()\<close> returned to a type
  check of the run, or a map given to a \<^verbatim>\<open>writeFile\<close> call of the run; and each such call
  is made while the last type-check status set is \<open>SUCCESS\<close>.
\<close>

theorem snapshot_assignments:
  "(checksums (step e n) = checksums n
    \<or> (\<exists>rid current again old.
          e = Checksums_ready rid (Some current) again
          \<and> map_of (starting n) rid = Some (Without_force (Inr old))
          \<and> checksums (step e n) = Some current)
    \<or> (\<exists>rid hashes.
          e = Write_done rid True \<and> map_of (writing n) rid = Some hashes
          \<and> checksums (step e n) = Some hashes))
   \<and> (map_of (starting n) rid = Some (Without_force (Inr old)) \<longrightarrow>
        checksums (step (Checksums_ready rid (Some current) again) n) = Some current)
   \<and> (map_of (starting n) rid = Some With_force \<longrightarrow>
        checksums (step (Checksums_ready rid first again) n) = checksums n)
   \<and> (map_of (starting n) rid = Some (Without_force (Inl err)) \<longrightarrow>
        checksums (step (Checksums_ready rid first again) n) = checksums n)
   \<and> checksums (step (Checksums_ready rid None again) n) = checksums n
   \<and> (map_of (writing n) rid = Some hashes \<longrightarrow>
        checksums (step (Write_done rid True) n) = Some hashes)
   \<and> checksums (step (Write_done rid False) n) = checksums n
   \<and> checksums (step (Subscribe rid force) n) = checksums n
   \<and> checksums (step (Proc_data pid is_err data) n) = checksums n
   \<and> checksums (step (Proc_close pid code now) n) = checksums n
   \<and> checksums (step (Proc_error pid msg) n) = checksums n
   \<and> (checksums (run events (new_node nm f)) = None
      \<or> (\<exists>rid current again.
            Checksums_ready rid (Some current) again \<in> set events
            \<and> checksums (run events (new_node nm f)) = Some current)
      \<or> (\<exists>rid hashes.
            WriteFile rid hashes \<in> set (trace (run events (new_node nm f)))
            \<and> checksums (run events (new_node nm f)) = Some hashes))
   \<and> writes_follow_success NOT_CHECKED (trace (run events (new_node nm f)))"
proof -
  have "map_of (starting n) rid = Some (Without_force (Inr old)) \<longrightarrow>
        checksums (step (Checksums_ready rid (Some current) again) n) = Some current"
    using ready_checksums [of n rid "Without_force (Inr old)" "Some current" again] by auto
  moreover have "map_of (starting n) rid = Some With_force \<longrightarrow>
        checksums (step (Checksums_ready rid first again) n) = checksums n"
    using ready_checksums [of n rid With_force first again] by auto
  moreover have "map_of (starting n) rid = Some (Without_force (Inl err)) \<longrightarrow>
        checksums (step (Checksums_ready rid first again) n) = checksums n"
    using ready_checksums [of n rid "Without_force (Inl err)" first again] by auto
  moreover have "checksums (step (Checksums_ready rid None again) n) = checksums n"
  proof (cases "map_of (starting n) rid")
    case None
    then show ?thesis by simp
  next
    case (Some held)
    from ready_checksums [OF this, of None again] show ?thesis by simp
  qed
  moreover have "map_of (writing n) rid = Some hashes \<longrightarrow>
        checksums (step (Write_done rid True) n) = Some hashes"
    by (simp add: write_done_checksums)
  moreover have "checksums (step (Write_done rid False) n) = checksums n"
    by (simp add: write_done_checksums split: option.splits)
  moreover have "checksums (step (Subscribe rid force) n) = checksums n"
    by (simp add: subscribe_checksums)
  moreover have "checksums (step (Proc_data pid is_err data) n) = checksums n"
    by (simp add: data_checksums)
  moreover have "checksums (step (Proc_close pid code now) n) = checksums n"
    by (simp add: process_event_close_frame)
  moreover have "checksums (step (Proc_error pid msg) n) = checksums n"
    by (simp add: process_event_error_frame)
  moreover have "status_traced (new_node nm f)"
    by (simp add: status_traced_def new_node_def)
  then have "status_traced (run events (new_node nm f))"
    by (rule traced_run)
  then have "writes_follow_success NOT_CHECKED (trace (run events (new_node nm f)))"
    by (simp add: status_traced_def)
  ultimately show ?thesis
    using checksums_step_cases [of e n] snapshot_origin [of events nm f] by blast
qed

text \<open>
  The witness. A first type check, forced, succeeds and its write is pending when a second
  one starts without \<open>force\<close>: the start assigns the map calculated for the second, the
  callback of the write then assigns the map of the first, and the second ends with code
  1 and leaves that map.
\<close>

theorem snapshot_assignments_witness:
  "map_of (starting (run [Subscribe 1 True, Checksums_ready 1 (Some hashes_v1) None,
        Proc_close 0 0 ''2021-01-01T00:00:00.000Z'', Subscribe 2 False]
        (new_node ''svc'' NoFile))) 2 = Some (Without_force (Inr None))
   \<and> checksums (run [Subscribe 1 True, Checksums_ready 1 (Some hashes_v1) None,
        Proc_close 0 0 ''2021-01-01T00:00:00.000Z'', Subscribe 2 False]
        (new_node ''svc'' NoFile)) = None
   \<and> checksums (step (Checksums_ready 2 (Some hashes_v2) None)
        (run [Subscribe 1 True, Checksums_ready 1 (Some hashes_v1) None,
              Proc_close 0 0 ''2021-01-01T00:00:00.000Z'', Subscribe 2 False]
           (new_node ''svc'' NoFile))) = Some hashes_v2
   \<and> map_of (writing (run [Subscribe 1 True, Checksums_ready 1 (Some hashes_v1) None,
        Proc_close 0 0 ''2021-01-01T00:00:00.000Z'', Subscribe 2 False,
        Checksums_ready 2 (Some hashes_v2) None]
        (new_node ''svc'' NoFile))) 1 = Some hashes_v1
   \<and> checksums (step (Write_done 1 True)
        (run [Subscribe 1 True, Checksums_ready 1 (Some hashes_v1) None,
              Proc_close 0 0 ''2021-01-01T00:00:00.000Z'', Subscribe 2 False,
              Checksums_ready 2 (Some hashes_v2) None]
           (new_node ''svc'' NoFile))) = Some hashes_v1
   \<and> typeCheckStatus (run [Subscribe 1 True, Checksums_ready 1 (Some hashes_v1) None,
        Proc_close 0 0 ''2021-01-01T00:00:00.000Z'', Subscribe 2 False,
        Checksums_ready 2 (Some hashes_v2) None, Write_done 1 True,
        Proc_close 1 1 ''2021-01-01T00:00:09.000Z'']
        (new_node ''svc'' NoFile)) = ERROR
   \<and> checksums (run [Subscribe 1 True, Checksums_ready 1 (Some hashes_v1) None,
        Proc_close 0 0 ''2021-01-01T00:00:00.000Z'', Subscribe 2 False,
        Checksums_ready 2 (Some hashes_v2) None, Write_done 1 True,
        Proc_close 1 1 ''2021-01-01T00:00:09.000Z'']
        (new_node ''svc'' NoFile)) = Some hashes_v1"
proof -
  let ?a = "run [Subscribe 1 True, Checksums_ready 1 (Some hashes_v1) None,
        Proc_close 0 0 ''2021-01-01T00:00:00.000Z'', Subscribe 2 False]
        (new_node ''svc'' NoFile)"
  let ?b = "run [Subscribe 1 True, Checksums_ready 1 (Some hashes_v1) None,
        Proc_close 0 0 ''2021-01-01T00:00:00.000Z'', Subscribe 2 False,
        Checksums_ready 2 (Some hashes_v2) None]
        (new_node ''svc'' NoFile)"
  let ?c = "run [Subscribe 1 True, Checksums_ready 1 (Some hashes_v1) None,
        Proc_close 0 0 ''2021-01-01T00:00:00.000Z'', Subscribe 2 False,
        Checksums_ready 2 (Some hashes_v2) None, Write_done 1 True,
        Proc_close 1 1 ''2021-01-01T00:00:09.000Z'']
        (new_node ''svc'' NoFile)"
  have a1: "map_of (starting ?a) 2 = Some (Without_force (Inr None))"
    by code_simp
  have a2: "checksums ?a = None"
    by code_simp
  have b1: "map_of (writing ?b) 1 = Some hashes_v1"
    by code_simp
  have c1: "typeCheckStatus ?c = ERROR"
    by code_simp
  have c2: "?c = step (Proc_close 1 1 ''2021-01-01T00:00:09.000Z'') (step (Write_done 1 True) ?b)"
    by (simp add: run_def)
  from snapshot_assignments [where n = ?a and rid = 2 and old = None and current = hashes_v2
         and again = None] a1
  have a3: "checksums (step (Checksums_ready 2 (Some hashes_v2) None) ?a) = Some hashes_v2"
    by blast
  from snapshot_assignments [where n = ?b and rid = 1 and hashes = hashes_v1] b1
  have b2: "checksums (step (Write_done 1 True) ?b) = Some hashes_v1"
    by blast
  from snapshot_assignments
         [where n = "step (Write_done 1 True) ?b" and pid = 1 and code = 1
            and now = "''2021-01-01T00:00:09.000Z''"]
  have "checksums (step (Proc_close 1 1 ''2021-01-01T00:00:09.000Z'') (step (Write_done 1 True) ?b))
          = checksums (step (Write_done 1 True) ?b)"
    by blast
  with b2 c2 have c3: "checksums ?c = Some hashes_v1"
    by simp
  from a1 a2 a3 b1 b2 c1 c3 show ?thesis
    by blast
qed

text \<open>
  A type check without \<open>force\<close> on a new node with no stored map: the subprocess ends with
  code 1 and the node is in \<open>ERROR\<close>, yet \<^verbatim>\<open>_checksums\<close>, undefined before, holds the map
  that was calculated; it held it already while the node was \<open>CHECKING\<close>.
\<close>

theorem snapshot_assigned_before_outcome:
  "checksums (new_node ''svc'' NoFile) = None
   \<and> typeCheckStatus (run [Subscribe 1 False, Checksums_ready 1 (Some hashes_v1) None]
                        (new_node ''svc'' NoFile)) = CHECKING
   \<and> checksums (run [Subscribe 1 False, Checksums_ready 1 (Some hashes_v1) None]
                  (new_node ''svc'' NoFile)) = Some hashes_v1
   \<and> typeCheckStatus (run [Subscribe 1 False, Checksums_ready 1 (Some hashes_v1) None,
                            Proc_close 0 1 ''2021-01-01T00:00:00.000Z'']
                        (new_node ''svc'' NoFile)) = ERROR
   \<and> checksums (run [Subscribe 1 False, Checksums_ready 1 (Some hashes_v1) None,
                      Proc_close 0 1 ''2021-01-01T00:00:00.000Z'']
                  (new_node ''svc'' NoFile)) = Some hashes_v1"
  by code_simp

section \<open>Properties of the construction of nodes\<close>

lemma find_SomeD:
  "find P xs = Some x \<Longrightarrow> P x \<and> x \<in> set xs"
  by (induction xs) (auto split: if_splits)

lemma build_dependencies_into_cycle:
  assumes closed: "self_dependent workspaces C"
    and constructor: "\<And>nodes k node. none_built C nodes \<Longrightarrow>
        (depends_into C node \<longrightarrow> Node_constructor depth workspaces nodes k node = None)
        \<and> (\<forall>this nodes'. Node_constructor depth workspaces nodes k node = Some (this, nodes')
              \<longrightarrow> ws_name node \<notin> C \<longrightarrow> none_built C nodes')"
    and "none_built C nodes"
  shows "((\<exists>d \<in> set descriptors. d \<in> C) \<longrightarrow>
            build_dependencies depth workspaces nodes descriptors acc = None)
         \<and> (\<forall>acc' nodes'. build_dependencies depth workspaces nodes descriptors acc = Some (acc', nodes')
               \<longrightarrow> none_built C nodes')"
  using assms(3)
proof (induction descriptors arbitrary: nodes acc)
  case Nil
  then show ?case by simp
next
  case (Cons name descriptors)
  note built = Cons.prems
  show ?case
  proof (cases "find (\<lambda>n. node_name n = name) nodes")
    case (Some alreadyBuilt)
    then have "name \<in> node_name ` set nodes"
      using find_SomeD [of "\<lambda>n. node_name n = name" nodes alreadyBuilt] by auto
    then have "name \<notin> C"
      using built by (auto simp: none_built_def)
    with Some Cons.IH [OF built, of "acc @ [alreadyBuilt]"] show ?thesis
      by auto
  next
    case None
    show ?thesis
    proof (cases "find (\<lambda>w. ws_name w = name) workspaces")
      case external: None
      then have "name \<notin> C"
        using closed by (auto simp: self_dependent_def)
      with None external Cons.IH [OF built, of acc] show ?thesis
        by auto
    next
      case (Some workspace)
      let ?k = "if ws_isService workspace then Service else Package"
      have name: "ws_name workspace = name"
        using find_SomeD [OF Some] by simp
      note spec = constructor [OF built, of workspace ?k]
      show ?thesis
      proof (cases "Node_constructor depth workspaces nodes ?k workspace")
        case unfinished: None
        with None Some show ?thesis by simp
      next
        case finished: (Some result)
        obtain child nodes' where result: "result = (child, nodes')"
          by (cases result)
        have "\<not> depends_into C workspace"
          using spec finished by auto
        then have out: "name \<notin> C"
          using closed Some by (auto simp: self_dependent_def)
        then have "none_built C nodes'"
          using spec finished result name by auto
        from Cons.IH [OF this, of "acc @ [child]"] None Some finished result out
        show ?thesis by auto
      qed
    qed
  qed
qed

lemma constructor_into_cycle:
  assumes closed: "self_dependent workspaces C"
    and "none_built C nodes"
  shows "(depends_into C node \<longrightarrow> Node_constructor depth workspaces nodes k node = None)
         \<and> (\<forall>this nodes'. Node_constructor depth workspaces nodes k node = Some (this, nodes')
               \<longrightarrow> ws_name node \<notin> C \<longrightarrow> none_built C nodes')"
  using assms(2)
proof (induction depth arbitrary: nodes k node)
  case 0
  then show ?case by simp
next
  case (Suc depth)
  let ?deps = "ws_dependencies node @ ws_devDependencies node"
  have loop: "((\<exists>d \<in> set ?deps. d \<in> C) \<longrightarrow>
            build_dependencies depth workspaces nodes ?deps [] = None)
         \<and> (\<forall>acc' nodes'. build_dependencies depth workspaces nodes ?deps [] = Some (acc', nodes')
               \<longrightarrow> none_built C nodes')"
    by (rule build_dependencies_into_cycle [OF closed Suc.IH Suc.prems])
  show ?case
  proof (cases "build_dependencies depth workspaces nodes ?deps []")
    case None
    then show ?thesis by simp
  next
    case (Some result)
    obtain dependentWorkspaces nodes' where result: "result = (dependentWorkspaces, nodes')"
      by (cases result)
    have "\<not> depends_into C node" and "none_built C nodes'"
      using loop Some result by (auto simp: depends_into_def)
    with Some result show ?thesis
      by (auto simp: none_built_def Let_def)
  qed
qed

lemma constructor_never_returns:
  assumes "self_dependent workspaces C" and "none_built C nodes" and "depends_into C node"
  shows "Node_constructor depth workspaces nodes k node = None"
  using constructor_into_cycle [OF assms(1,2), of node depth k] assms(3) by simp

lemma cycle_A_B:
  "self_dependent [workspace_A, workspace_B] {''A'', ''B''}"
  "none_built {''A'', ''B''} []"
  "depends_into {''A'', ''B''} workspace_A"
  by (simp_all add: self_dependent_def none_built_def depends_into_def workspace_A_def
      workspace_B_def)

text \<open>
  C5, as the code has it. The constructor has no check for cycles and adds a node to
  \<open>nodes\<close> only after the nodes of its dependencies are built. Let \<open>C\<close> be a set of names
  of workspaces, each of which lists a name of \<open>C\<close> among its dependencies and
  devDependencies, none of them built yet. Constructing the node of a workspace that
  lists a name of \<open>C\<close> does not return a node or an error, whatever depth of nested
  constructor calls is allowed: the constructor calls itself without bound.
\<close>

theorem constructor_recurses_on_cycle:
  assumes "self_dependent workspaces C" and "none_built C nodes" and "depends_into C node"
  shows "\<forall>depth. Node_constructor depth workspaces nodes k node = None"
  using constructor_never_returns [OF assms] by simp

theorem constructor_recurses_on_cycle_witness:
  "self_dependent [workspace_A, workspace_B] {''A'', ''B''}
   \<and> none_built {''A'', ''B''} []
   \<and> depends_into {''A'', ''B''} workspace_A
   \<and> Node_constructor 1000 [workspace_A, workspace_B] [] Package workspace_A = None"
  using constructor_recurses_on_cycle [OF cycle_A_B, of Package] cycle_A_B by simp

text \<open>
  A depends on B and B depends on A: no depth of nested constructor calls is enough to
  build the node of A, and there is no error that would name the two.
\<close>

theorem constructor_cycle_A_B_never_returns:
  "\<forall>depth. Node_constructor depth [workspace_A, workspace_B] [] Package workspace_A = None"
  using constructor_never_returns [OF cycle_A_B] by simp

text \<open>Without a cycle the constructor returns, here at depth 2, with the nodes it built.\<close>

lemma constructor_builds_svc:
  "Node_constructor 2 [workspace_svc, workspace_lib] [] Service workspace_svc =
     Some (Node Service ''svc'' ''/repo/svc''
             [Node Package ''lib'' ''/repo/lib'' [], Node Package ''lib'' ''/repo/lib'' []],
           [Node Package ''lib'' ''/repo/lib'' [],
            Node Service ''svc'' ''/repo/svc''
              [Node Package ''lib'' ''/repo/lib'' [], Node Package ''lib'' ''/repo/lib'' []]])"
  by code_simp

end
